theory Spec2Isabelle
  imports Main "HOL-Library.Word"
begin

section \<open>Python values used by ancs_service.py\<close>

text \<open>
  A \<open>bytes\<close> or \<open>bytearray\<close> object is a list of 8-bit words. Cursors, lengths and
  the integers read from byte fields are never negative in this program, so they are
  natural numbers. A Python \<open>str\<close> is a list of code points. Every operation of the
  source that can raise returns a sum, with the exception on the left.
\<close>

type_synonym byte = "8 word"
type_synonym bytes = "byte list"
type_synonym pystr = "nat list"

datatype py_error = IndexError | OverflowError

definition bind_res :: "py_error + 'a \<Rightarrow> ('a \<Rightarrow> py_error + 'b) \<Rightarrow> py_error + 'b" where
  "bind_res r f = (case r of Inl e \<Rightarrow> Inl e | Inr v \<Rightarrow> f v)"

text \<open>\<open>data[i]\<close> for a cursor \<open>i \<ge> 0\<close>: the byte as an integer, or IndexError.\<close>

definition getitem :: "bytes \<Rightarrow> nat \<Rightarrow> py_error + nat" where
  "getitem data i = (if i < length data then Inr (unat (data ! i)) else Inl IndexError)"

text \<open>\<open>xs[a:b]\<close> for \<open>0 \<le> a\<close>, \<open>0 \<le> b\<close>: slicing clamps to the sequence and never raises.\<close>

definition py_slice :: "'a list \<Rightarrow> nat \<Rightarrow> nat \<Rightarrow> 'a list" where
  "py_slice xs a b = take (b - a) (drop a xs)"

text \<open>\<open>int.from_bytes(bs, byteorder="little")\<close>.\<close>

fun from_bytes_le :: "bytes \<Rightarrow> nat" where
  "from_bytes_le [] = 0"
| "from_bytes_le (b # bs) = unat b + 256 * from_bytes_le bs"

text \<open>\<open>v.to_bytes(n, byteorder="little")\<close>: OverflowError when \<open>v\<close> needs more than \<open>n\<close> bytes.\<close>

fun le_digits :: "nat \<Rightarrow> nat \<Rightarrow> bytes" where
  "le_digits 0 v = []"
| "le_digits (Suc n) v = of_nat (v mod 256) # le_digits n (v div 256)"

definition to_bytes_le :: "nat \<Rightarrow> nat \<Rightarrow> py_error + bytes" where
  "to_bytes_le v n = (if v < 256 ^ n then Inr (le_digits n v) else Inl OverflowError)"

text \<open>\<open>d.get(k, default)\<close> and \<open>d.pop(k, None)\<close> on a dict.\<close>

definition dict_get :: "('k \<rightharpoonup> 'v) \<Rightarrow> 'k \<Rightarrow> 'v \<Rightarrow> 'v" where
  "dict_get d k dflt = (case d k of None \<Rightarrow> dflt | Some v \<Rightarrow> v)"

definition dict_pop :: "('k \<rightharpoonup> 'v) \<Rightarrow> 'k \<Rightarrow> 'v option \<times> ('k \<rightharpoonup> 'v)" where
  "dict_pop d k = (d k, d(k := None))"

section \<open>The TLV attribute parser\<close>

text \<open>
  One iteration of the loop of \<open>_parse_tlv_attributes\<close>, entered with
  \<open>i + 3 \<le> len(data)\<close>: either \<open>break\<close>, or the next cursor and the updated dict.
\<close>

datatype tlv_step = Stop | Next nat "nat \<rightharpoonup> bytes"

definition tlv_body :: "bytes \<Rightarrow> nat \<Rightarrow> (nat \<rightharpoonup> bytes) \<Rightarrow> py_error + tlv_step" where
  "tlv_body data i out =
     bind_res (getitem data i) (\<lambda>attr_id.
       let len = from_bytes_le (py_slice data (i + 1) (i + 3));
           i' = i + 3
       in if i' + len > length data then Inr Stop
          else Inr (Next (i' + len) (out(attr_id \<mapsto> py_slice data i' (i' + len)))))"

function parse_tlv_loop :: "bytes \<Rightarrow> nat \<Rightarrow> (nat \<rightharpoonup> bytes) \<Rightarrow> py_error + (nat \<rightharpoonup> bytes)" where
  "parse_tlv_loop data i out =
     (if i + 3 \<le> length data then
        (case tlv_body data i out of
           Inl e \<Rightarrow> Inl e
         | Inr Stop \<Rightarrow> Inr out
         | Inr (Next i' out') \<Rightarrow> parse_tlv_loop data i' out')
      else Inr out)"
  by pat_completeness auto
termination
proof (relation "measure (\<lambda>(data, i, out). length data - i)")
  show "wf (measure (\<lambda>(data, i, out). length data - i))"
    by simp
next
  fix data :: bytes and i :: nat and out :: "nat \<rightharpoonup> bytes"
    and r :: tlv_step and i' :: nat and out' :: "nat \<rightharpoonup> bytes"
  assume le: "i + 3 \<le> length data"
    and body: "tlv_body data i out = Inr r" and r: "r = Next i' out'"
  from body r le have "i < i'" and "i' \<le> length data"
    by (auto simp: tlv_body_def bind_res_def getitem_def Let_def split: if_splits)
  then show "((data, i', out'), (data, i, out)) \<in> measure (\<lambda>(data, i, out). length data - i)"
    by simp
qed

declare parse_tlv_loop.simps [simp del]

definition parse_tlv_attributes :: "bytes \<Rightarrow> py_error + (nat \<rightharpoonup> bytes)" where
  "parse_tlv_attributes data = parse_tlv_loop data 0 Map.empty"


section \<open>Text: formatting, decoding and stripping\<close>

text \<open>A string literal of the source, as code points.\<close>

definition lit :: "string \<Rightarrow> pystr" where
  "lit cs = map of_char cs"

text \<open>\<open>str(n)\<close> and the f-string field \<open>{n}\<close> for an integer \<open>n \<ge> 0\<close>.\<close>

function str_nat :: "nat \<Rightarrow> pystr" where
  "str_nat n = (if n < 10 then [48 + n] else str_nat (n div 10) @ [48 + n mod 10])"
  by pat_completeness auto
termination
  by (relation "measure (\<lambda>n. n)") auto

declare str_nat.simps [simp del]

text \<open>The f-string field \<open>{n:08b}\<close>: binary digits, padded with zeros to width 8.\<close>

function bin_nat :: "nat \<Rightarrow> pystr" where
  "bin_nat n = (if n < 2 then [48 + n] else bin_nat (n div 2) @ [48 + n mod 2])"
  by pat_completeness auto
termination
  by (relation "measure (\<lambda>n. n)") auto

declare bin_nat.simps [simp del]

definition fmt_08b :: "nat \<Rightarrow> pystr" where
  "fmt_08b n = replicate (8 - length (bin_nat n)) 48 @ bin_nat n"

text \<open>\<open>data.hex()\<close>: two lower-case hexadecimal digits for each byte.\<close>

definition hex_digit :: "nat \<Rightarrow> nat" where
  "hex_digit d = (if d < 10 then 48 + d else 87 + d)"

definition bytes_hex :: "bytes \<Rightarrow> pystr" where
  "bytes_hex data = concat (map (\<lambda>b. [hex_digit (unat b div 16), hex_digit (unat b mod 16)]) data)"

text \<open>
  \<open>bs.decode(errors="ignore")\<close>: the UTF-8 decoder of CPython, which on an invalid start
  byte skips that byte, on an invalid continuation byte skips the bytes of the sequence
  before it, and on a sequence cut off by the end of the data skips the rest. It
  returns a string for every input.
\<close>

definition is_cont :: "nat \<Rightarrow> bool" where
  "is_cont c = (128 \<le> c \<and> c < 192)"

fun utf8_ignore :: "nat list \<Rightarrow> pystr" where
  "utf8_ignore [] = []"
| "utf8_ignore (ch # s) =
     (if ch < 128 then ch # utf8_ignore s
      else if ch < 194 then utf8_ignore s
      else if ch < 224 then
        (case s of
           [] \<Rightarrow> []
         | ch2 # s2 \<Rightarrow>
             if \<not> is_cont ch2 then utf8_ignore s
             else ((ch - 192) * 64 + (ch2 - 128)) # utf8_ignore s2)
      else if ch < 240 then
        (case s of
           [] \<Rightarrow> []
         | ch2 # s2 \<Rightarrow>
             if \<not> is_cont ch2 \<or> (if ch2 < 160 then ch = 224 else ch = 237) then utf8_ignore s
             else (case s2 of
                     [] \<Rightarrow> []
                   | ch3 # s3 \<Rightarrow>
                       if \<not> is_cont ch3 then utf8_ignore s2
                       else ((ch - 224) * 4096 + (ch2 - 128) * 64 + (ch3 - 128)) # utf8_ignore s3))
      else if ch < 245 then
        (case s of
           [] \<Rightarrow> []
         | ch2 # s2 \<Rightarrow>
             if \<not> is_cont ch2 \<or> (if ch2 < 144 then ch = 240 else ch = 244) then utf8_ignore s
             else (case s2 of
                     [] \<Rightarrow> []
                   | ch3 # s3 \<Rightarrow>
                       if \<not> is_cont ch3 then utf8_ignore s2
                       else (case s3 of
                               [] \<Rightarrow> []
                             | ch4 # s4 \<Rightarrow>
                                 if \<not> is_cont ch4 then utf8_ignore s3
                                 else ((ch - 240) * 262144 + (ch2 - 128) * 4096
                                       + (ch3 - 128) * 64 + (ch4 - 128)) # utf8_ignore s4)))
      else utf8_ignore s)"

declare utf8_ignore.simps [simp del]

definition decode_ignore :: "bytes \<Rightarrow> pystr" where
  "decode_ignore bs = utf8_ignore (map unat bs)"

text \<open>\<open>s.strip(chars)\<close>: leading and trailing characters that occur in \<open>chars\<close> are removed.\<close>

definition py_strip :: "pystr \<Rightarrow> pystr \<Rightarrow> pystr" where
  "py_strip s chars =
     rev (dropWhile (\<lambda>c. c \<in> set chars) (rev (dropWhile (\<lambda>c. c \<in> set chars) s)))"


section \<open>Constants of the protocol\<close>

definition EVENT_ADDED :: nat where "EVENT_ADDED = 0"
definition EVENT_MODIFIED :: nat where "EVENT_MODIFIED = 1"
definition EVENT_REMOVED :: nat where "EVENT_REMOVED = 2"

definition CATEGORIES :: "nat \<rightharpoonup> pystr" where
  "CATEGORIES = map_of
     [(0, lit ''Other''), (1, lit ''IncomingCall''), (2, lit ''MissedCall''),
      (3, lit ''Voicemail''), (4, lit ''Social''), (5, lit ''Schedule''),
      (6, lit ''Email''), (7, lit ''News''), (8, lit ''Health''),
      (9, lit ''Business''), (10, lit ''Location''), (11, lit ''Entertainment'')]"

text \<open>The dict literal of event names in \<open>_on_notification_source\<close>.\<close>

definition EVENT_NAMES :: "nat \<rightharpoonup> pystr" where
  "EVENT_NAMES = map_of [(0, lit ''Added''), (1, lit ''Modified''), (2, lit ''Removed'')]"

definition CP_GET_NOTIFICATION_ATTRIBUTES :: nat where "CP_GET_NOTIFICATION_ATTRIBUTES = 0"

definition NA_APP_IDENTIFIER :: nat where "NA_APP_IDENTIFIER = 0"
definition NA_TITLE :: nat where "NA_TITLE = 1"
definition NA_SUBTITLE :: nat where "NA_SUBTITLE = 2"
definition NA_MESSAGE :: nat where "NA_MESSAGE = 3"

definition MAX_TITLE_LEN :: nat where "MAX_TITLE_LEN = 64"
definition MAX_MESSAGE_LEN :: nat where "MAX_MESSAGE_LEN = 256"

section \<open>The state of an ANCSMirror and its handlers\<close>

record PendingRequest =
  pr_uid :: nat
  pr_expecting :: string

text \<open>
  The fields of the object that the handlers read and write, and what they do to the
  outside: the lines printed, the coroutines handed to \<open>asyncio.create_task\<close> (each is
  \<open>_request_notification_attributes(uid)\<close>, so the uid stands for it) and the payloads
  handed to \<open>write_gatt_char\<close> on the control point.
\<close>

record mirror =
  client :: bool
  pending :: "nat \<rightharpoonup> PendingRequest"
  stdout :: "pystr list"
  tasks :: "nat list"
  written :: "bytes list"

definition py_print :: "mirror \<Rightarrow> pystr \<Rightarrow> mirror" where
  "py_print s line = s\<lparr>stdout := stdout s @ [line]\<rparr>"

subsection \<open>Notification Source\<close>

text \<open>The local variables of \<open>_on_notification_source\<close> once the length check has passed.\<close>

record ns_event =
  event_id :: nat
  event_flags :: nat
  category_id :: nat
  category_count :: nat
  ev_uid :: nat
  category :: pystr
  event_name :: pystr

definition ns_fields :: "bytes \<Rightarrow> py_error + ns_event" where
  "ns_fields data =
     bind_res (getitem data 0) (\<lambda>eid.
     bind_res (getitem data 1) (\<lambda>flags.
     bind_res (getitem data 2) (\<lambda>cid.
     bind_res (getitem data 3) (\<lambda>cnt.
       Inr \<lparr>event_id = eid, event_flags = flags, category_id = cid, category_count = cnt,
            ev_uid = from_bytes_le (py_slice data 4 8),
            category = dict_get CATEGORIES cid (lit ''Unknown('' @ str_nat cid @ lit '')''),
            event_name = dict_get EVENT_NAMES eid (lit ''Unknown('' @ str_nat eid @ lit '')'')\<rparr>))))"

definition ns_line :: "ns_event \<Rightarrow> pystr" where
  "ns_line ev =
     lit ''[ns] '' @ event_name ev @ lit '': uid='' @ str_nat (ev_uid ev)
     @ lit '' category='' @ category ev @ lit '' (count='' @ str_nat (category_count ev)
     @ lit '') flags=0b'' @ fmt_08b (event_flags ev)"

definition on_notification_source :: "mirror \<Rightarrow> bytes \<Rightarrow> py_error + mirror" where
  "on_notification_source s data =
     (if length data < 8 then Inr (py_print s (lit ''[ns] Short packet: '' @ bytes_hex data))
      else
        bind_res (ns_fields data) (\<lambda>ev.
          let s1 = py_print s (ns_line ev)
          in if event_id ev = EVENT_ADDED then Inr (s1\<lparr>tasks := tasks s1 @ [ev_uid ev]\<rparr>)
             else if event_id ev = EVENT_REMOVED
               then Inr (s1\<lparr>pending := snd (dict_pop (pending s1) (ev_uid ev))\<rparr>)
             else Inr s1))"

subsection \<open>Control Point\<close>

text \<open>The command bytes built by \<open>_request_notification_attributes\<close>.\<close>

definition build_cmd :: "nat \<Rightarrow> py_error + bytes" where
  "build_cmd u =
     bind_res (to_bytes_le u 4) (\<lambda>uid_bytes.
     bind_res (to_bytes_le MAX_TITLE_LEN 2) (\<lambda>title_len.
     bind_res (to_bytes_le MAX_MESSAGE_LEN 2) (\<lambda>message_len.
       Inr ([of_nat CP_GET_NOTIFICATION_ATTRIBUTES] @ uid_bytes
            @ [of_nat NA_APP_IDENTIFIER]
            @ [of_nat NA_TITLE] @ title_len
            @ [of_nat NA_MESSAGE] @ message_len))))"

text \<open>
  What \<open>await self.client.write_gatt_char(...)\<close> comes back with: it returns, or it raises
  an exception \<open>e\<close>, of which the handler prints \<open>str(e)\<close>.
\<close>

datatype write_result = WriteOk | WriteFailed pystr

text \<open>
  The coroutine up to its \<open>await\<close>: the flag says whether a write was issued. Other
  callbacks may run before the write comes back, so what follows the \<open>await\<close> is a
  function of its own, on the state at that later moment.
\<close>

definition request_begin :: "mirror \<Rightarrow> nat \<Rightarrow> py_error + (mirror \<times> bool)" where
  "request_begin s u =
     (if \<not> client s then Inr (s, False)
      else
        bind_res (build_cmd u) (\<lambda>cmd.
          Inr (s\<lparr>pending := (pending s)(u \<mapsto>
                     \<lparr>pr_uid = u, pr_expecting = ''notification_attributes''\<rparr>),
                 written := written s @ [cmd]\<rparr>, True)))"

definition request_end :: "mirror \<Rightarrow> nat \<Rightarrow> write_result \<Rightarrow> mirror" where
  "request_end s u w =
     (case w of
        WriteOk \<Rightarrow> py_print s (lit ''[cp] Requested attributes for uid='' @ str_nat u)
      | WriteFailed e \<Rightarrow>
          (let s1 = py_print s (lit ''[cp] Write failed: '' @ e)
           in s1\<lparr>pending := snd (dict_pop (pending s1) u)\<rparr>))"

text \<open>The whole coroutine, when no other callback runs while the write is awaited.\<close>

definition request_notification_attributes ::
    "mirror \<Rightarrow> nat \<Rightarrow> write_result \<Rightarrow> py_error + mirror" where
  "request_notification_attributes s u w =
     bind_res (request_begin s u) (\<lambda>(s1, awaiting).
       if awaiting then Inr (request_end s1 u w) else Inr s1)"

subsection \<open>Data Source\<close>

definition STRIP_CHARS :: pystr where
  "STRIP_CHARS = [0, 10, 13, 32]"

text \<open>\<open>attrs.get(k, b"").decode(errors="ignore").strip("\x00\n\r ")\<close>.\<close>

definition attr_text :: "(nat \<rightharpoonup> bytes) \<Rightarrow> nat \<Rightarrow> pystr" where
  "attr_text attrs k = py_strip (decode_ignore (dict_get attrs k [])) STRIP_CHARS"

definition print_summary :: "mirror \<Rightarrow> pystr \<Rightarrow> pystr \<Rightarrow> pystr \<Rightarrow> bytes \<Rightarrow> mirror" where
  "print_summary s app_id title message payload =
     (let s1 = py_print s (lit ''[ds] Notification Attributes:'');
          s2 = (if app_id \<noteq> [] then py_print s1 (lit ''     App: '' @ app_id) else s1);
          s3 = (if title \<noteq> [] then py_print s2 (lit ''   Title: '' @ title) else s2);
          s4 = (if message \<noteq> []
                then py_print s3 (lit '' Message: ''
                       @ (if length message \<le> 200 then message
                          else py_slice message 0 200 @ [8230]))
                else s3)
      in if \<not> (app_id \<noteq> [] \<or> title \<noteq> [] \<or> message \<noteq> [])
         then py_print s4 (lit ''   (no attributes) raw='' @ bytes_hex payload)
         else s4)"

definition on_data_source :: "mirror \<Rightarrow> bytes \<Rightarrow> py_error + mirror" where
  "on_data_source s data =
     (if length data < 4 then Inr (py_print s (lit ''[ds] Short packet: '' @ bytes_hex data))
      else
        let u = from_bytes_le (py_slice data 0 4);
            payload = drop 4 data
        in bind_res (parse_tlv_attributes payload) (\<lambda>attrs.
             let title = attr_text attrs NA_TITLE;
                 message = attr_text attrs NA_MESSAGE;
                 app_id = attr_text attrs NA_APP_IDENTIFIER;
                 s1 = print_summary s app_id title message payload
             in Inr (s1\<lparr>pending := snd (dict_pop (pending s1) u)\<rparr>)))"


section \<open>The wire formats, as the specification words them\<close>

text \<open>
  A TLV record is one kind byte, the length of the value as two little-endian bytes,
  and the value. A response payload is a run of such records followed by a rest at
  which no further record is complete: fewer than three bytes, or a declared length
  that runs past the end.
\<close>

definition ascii :: "string \<Rightarrow> bytes" where
  "ascii cs = map of_char cs"

definition tlv_record :: "byte \<Rightarrow> bytes \<Rightarrow> bytes" where
  "tlv_record k v = k # le_digits 2 (length v) @ v"

definition tlv_encode :: "(byte \<times> bytes) list \<Rightarrow> bytes" where
  "tlv_encode rs = concat (map (\<lambda>(k, v). tlv_record k v) rs)"

definition tlv_wf :: "(byte \<times> bytes) list \<Rightarrow> bool" where
  "tlv_wf rs = list_all (\<lambda>(k, v). length v < 65536) rs"

definition tlv_stops :: "bytes \<Rightarrow> bool" where
  "tlv_stops rest = (length rest < 3 \<or> length rest < 3 + from_bytes_le (py_slice rest 1 3))"

text \<open>The mapping a run of records stands for: a later record replaces an earlier one.\<close>

definition attrs_of :: "(byte \<times> bytes) list \<Rightarrow> (nat \<rightharpoonup> bytes)" where
  "attrs_of rs = map_of (rev (map (\<lambda>(k, v). (unat k, v)) rs))"

text \<open>
  The "get notification attributes" command: the command id, the uid as four
  little-endian bytes, then for each requested attribute its kind byte, followed by a
  two-byte little-endian maximum length only for title, subtitle and message.
\<close>

definition has_max_len :: "nat \<Rightarrow> bool" where
  "has_max_len k = (k = NA_TITLE \<or> k = NA_SUBTITLE \<or> k = NA_MESSAGE)"

definition spec_encode_attr :: "nat \<times> nat option \<Rightarrow> bytes" where
  "spec_encode_attr a =
     of_nat (fst a) # (if has_max_len (fst a)
                       then (case snd a of Some n \<Rightarrow> le_digits 2 n | None \<Rightarrow> [])
                       else [])"

definition spec_encode :: "nat \<Rightarrow> (nat \<times> nat option) list \<Rightarrow> bytes" where
  "spec_encode u attrs = 0 # le_digits 4 u @ concat (map spec_encode_attr attrs)"

text \<open>Reading a command back: the uid of the fixed header, and the kinds that follow it.\<close>

definition spec_decode_uid :: "bytes \<Rightarrow> nat" where
  "spec_decode_uid cmd = from_bytes_le (py_slice cmd 1 5)"

function spec_decode_kinds :: "bytes \<Rightarrow> nat list" where
  "spec_decode_kinds [] = []"
| "spec_decode_kinds (k # bs) =
     unat k # spec_decode_kinds (if has_max_len (unat k) then drop 2 bs else bs)"
  by pat_completeness auto
termination
  by (relation "measure length") auto

text \<open>
  The category table of the specification, by code point, and a notification-source
  packet: event kind, flags, category, category count, and the uid as four
  little-endian bytes.
\<close>

definition spec_category_names :: "pystr list" where
  "spec_category_names =
     [lit ''Other'', lit ''IncomingCall'', lit ''MissedCall'', lit ''Voicemail'',
      lit ''Social'', lit ''Schedule'', lit ''Email'', lit ''News'', lit ''Health'',
      lit ''Business'', lit ''Location'', lit ''Entertainment'']"

definition ns_packet :: "byte \<Rightarrow> byte \<Rightarrow> byte \<Rightarrow> byte \<Rightarrow> nat \<Rightarrow> bytes" where
  "ns_packet k fl c n u = [k, fl, c, n] @ le_digits 4 u"

text \<open>A Unicode scalar value: a code point up to U+10FFFF that is not a surrogate.\<close>

definition valid_scalar :: "nat \<Rightarrow> bool" where
  "valid_scalar c = (c < 1114112 \<and> \<not> (55296 \<le> c \<and> c < 57344))"

text \<open>
  The UTF-8 encoding of a scalar value, as integers and as bytes: a byte sequence is
  well-formed text exactly when it is a run of such encodings.
\<close>

definition spec_utf8 :: "nat \<Rightarrow> nat list" where
  "spec_utf8 x =
     (if x < 128 then [x]
      else if x < 2048 then [192 + x div 64, 128 + x mod 64]
      else if x < 65536 then [224 + x div 4096, 128 + x div 64 mod 64, 128 + x mod 64]
      else [240 + x div 262144, 128 + x div 4096 mod 64, 128 + x div 64 mod 64,
            128 + x mod 64])"

definition spec_utf8_bytes :: "nat \<Rightarrow> bytes" where
  "spec_utf8_bytes x = map of_nat (spec_utf8 x)"

section \<open>Properties of the byte helpers\<close>

lemma length_le_digits [simp]: "length (le_digits n v) = n"
  by (induction n arbitrary: v) auto

lemma from_bytes_le_digits: "v < 256 ^ n \<Longrightarrow> from_bytes_le (le_digits n v) = v"
proof (induction n arbitrary: v)
  case 0
  then show ?case by simp
next
  case (Suc n)
  from Suc.prems have "v div 256 < 256 ^ n"
    by (simp add: less_mult_imp_div_less mult.commute)
  then have "from_bytes_le (le_digits n (v div 256)) = v div 256"
    by (rule Suc.IH)
  moreover have "unat (of_nat (v mod 256) :: byte) = v mod 256"
    by (simp add: unat_of_nat)
  ultimately show ?case by simp
qed

lemma length_tlv_record [simp]: "length (tlv_record k v) = 3 + length v"
  by (simp add: tlv_record_def)

lemma tlv_body_record:
  assumes "length v < 65536"
  shows "tlv_body (pre @ tlv_record k v @ post) (length pre) out
         = Inr (Next (length pre + 3 + length v) (out(unat k \<mapsto> v)))"
proof -
  let ?d = "pre @ tlv_record k v @ post"
  have g: "getitem ?d (length pre) = Inr (unat k)"
    by (simp add: getitem_def tlv_record_def nth_append)
  have d1: "drop (Suc (length pre)) ?d = le_digits 2 (length v) @ v @ post"
    by (simp add: tlv_record_def)
  have n1: "length pre + 3 - Suc (length pre) = 2"
    by simp
  have s1: "py_slice ?d (Suc (length pre)) (length pre + 3) = le_digits 2 (length v)"
    unfolding py_slice_def d1 n1 by simp
  have d2: "drop (length pre + 3) ?d = v @ post"
    by (simp add: tlv_record_def)
  have s2: "py_slice ?d (length pre + 3) (length pre + 3 + length v) = v"
    unfolding py_slice_def d2 by simp
  have f: "from_bytes_le (le_digits 2 (length v)) = length v"
    using assms by (intro from_bytes_le_digits) simp
  show ?thesis
    unfolding tlv_body_def g bind_res_def
    using s2 by (simp add: s1 f Let_def add.assoc)
qed


lemma attrs_of_Cons: "out ++ attrs_of ((k, v) # rs) = out(unat k \<mapsto> v) ++ attrs_of rs"
  by (simp add: attrs_of_def)

lemma parse_tlv_loop_short: "\<not> i + 3 \<le> length data \<Longrightarrow> parse_tlv_loop data i out = Inr out"
  by (subst parse_tlv_loop.simps) simp

lemma parse_tlv_loop_Stop:
  "i + 3 \<le> length data \<Longrightarrow> tlv_body data i out = Inr Stop
   \<Longrightarrow> parse_tlv_loop data i out = Inr out"
  by (subst parse_tlv_loop.simps) simp

lemma parse_tlv_loop_Next:
  "i + 3 \<le> length data \<Longrightarrow> tlv_body data i out = Inr (Next i' out')
   \<Longrightarrow> parse_tlv_loop data i out = parse_tlv_loop data i' out'"
  by (subst parse_tlv_loop.simps) simp

lemma parse_tlv_loop_stop:
  assumes "tlv_stops rest"
  shows "parse_tlv_loop (pre @ rest) (length pre) out = Inr out"
proof (cases "length rest < 3")
  case True
  then show ?thesis
    by (intro parse_tlv_loop_short) simp
next
  case False
  with assms have over: "length rest < 3 + from_bytes_le (py_slice rest 1 3)"
    by (simp add: tlv_stops_def)
  have sl: "py_slice (pre @ rest) (Suc (length pre)) (length pre + 3) = py_slice rest 1 3"
    by (simp add: py_slice_def)
  from False have ne: "rest \<noteq> []"
    by auto
  have "tlv_body (pre @ rest) (length pre) out = Inr Stop"
    using over ne by (simp add: tlv_body_def getitem_def bind_res_def sl Let_def)
  moreover from False have "length pre + 3 \<le> length (pre @ rest)"
    by simp
  ultimately show ?thesis
    by (intro parse_tlv_loop_Stop)
qed

lemma parse_tlv_loop_records:
  assumes "tlv_wf rs"
  shows "parse_tlv_loop (pre @ tlv_encode rs @ rest) (length pre) out
         = parse_tlv_loop (pre @ tlv_encode rs @ rest) (length pre + length (tlv_encode rs))
             (out ++ attrs_of rs)"
  using assms
proof (induction rs arbitrary: pre out)
  case Nil
  then show ?case by (simp add: tlv_encode_def attrs_of_def)
next
  case (Cons r rs)
  obtain k v where r: "r = (k, v)" by (cases r)
  from Cons.prems r have len: "length v < 65536" and wf: "tlv_wf rs"
    by (simp_all add: tlv_wf_def)
  let ?d = "pre @ tlv_encode (r # rs) @ rest"
  have d: "?d = pre @ tlv_record k v @ (tlv_encode rs @ rest)"
    by (simp add: tlv_encode_def r)
  have d': "?d = (pre @ tlv_record k v) @ tlv_encode rs @ rest"
    by (simp add: tlv_encode_def r)
  have body: "tlv_body ?d (length pre) out
              = Inr (Next (length pre + 3 + length v) (out(unat k \<mapsto> v)))"
    unfolding d by (rule tlv_body_record [OF len])
  have "parse_tlv_loop ?d (length pre) out
        = parse_tlv_loop ?d (length (pre @ tlv_record k v)) (out(unat k \<mapsto> v))"
  proof (rule parse_tlv_loop_Next)
    show "length pre + 3 \<le> length ?d"
      by (simp add: d)
    show "tlv_body ?d (length pre) out
          = Inr (Next (length (pre @ tlv_record k v)) (out(unat k \<mapsto> v)))"
      by (simp add: body add.assoc)
  qed
  also have "\<dots> = parse_tlv_loop ?d (length (pre @ tlv_record k v) + length (tlv_encode rs))
                     (out(unat k \<mapsto> v) ++ attrs_of rs)"
    unfolding d' by (rule Cons.IH [OF wf])
  also have "length (pre @ tlv_record k v) + length (tlv_encode rs)
             = length pre + length (tlv_encode (r # rs))"
    by (simp add: tlv_encode_def r)
  also have "out(unat k \<mapsto> v) ++ attrs_of rs = out ++ attrs_of (r # rs)"
    by (simp add: attrs_of_Cons r)
  finally show ?case .
qed

lemma parse_tlv_attributes_encode:
  assumes "tlv_wf rs" and "tlv_stops rest"
  shows "parse_tlv_attributes (tlv_encode rs @ rest) = Inr (attrs_of rs)"
proof -
  have "parse_tlv_loop ([] @ tlv_encode rs @ rest) (length ([] :: bytes)) Map.empty
        = parse_tlv_loop ([] @ tlv_encode rs @ rest)
            (length ([] :: bytes) + length (tlv_encode rs)) (Map.empty ++ attrs_of rs)"
    by (rule parse_tlv_loop_records [OF assms(1)])
  also have "\<dots> = parse_tlv_loop (tlv_encode rs @ rest) (length (tlv_encode rs)) (attrs_of rs)"
    by simp
  also have "\<dots> = Inr (attrs_of rs)"
    by (rule parse_tlv_loop_stop [OF assms(2)])
  finally show ?thesis
    by (simp add: parse_tlv_attributes_def)
qed


lemma from_bytes_le_bound: "from_bytes_le bs < 256 ^ length bs"
proof (induction bs)
  case Nil
  then show ?case by simp
next
  case (Cons b bs)
  have "unat b < 256"
    using unsigned_less [of b, where 'a = nat] by simp
  with Cons.IH show ?case by simp
qed

lemma le_digits_from_bytes: "le_digits (length bs) (from_bytes_le bs) = bs"
proof (induction bs)
  case Nil
  then show ?case by simp
next
  case (Cons b bs)
  have b: "unat b < 256"
    using unsigned_less [of b, where 'a = nat] by simp
  then have "(unat b + 256 * from_bytes_le bs) mod 256 = unat b"
    and "(unat b + 256 * from_bytes_le bs) div 256 = from_bytes_le bs"
    by simp_all
  with Cons.IH show ?case by simp
qed

lemma tlv_body_total:
  assumes "i + 3 \<le> length data"
  shows "\<exists>r. tlv_body data i out = Inr r"
  using assms by (simp add: tlv_body_def getitem_def bind_res_def Let_def)

lemma tlv_body_Next_bounds:
  assumes "i + 3 \<le> length data" and "tlv_body data i out = Inr (Next i' out')"
  shows "i + 3 \<le> i' \<and> i' \<le> length data"
  using assms by (auto simp: tlv_body_def getitem_def bind_res_def Let_def split: if_splits)

lemma parse_tlv_loop_total: "\<exists>m. parse_tlv_loop data i out = Inr m"
proof (induction data i out rule: parse_tlv_loop.induct)
  case (1 data i out)
  show ?case
  proof (cases "i + 3 \<le> length data")
    case False
    then show ?thesis by (simp add: parse_tlv_loop_short)
  next
    case True
    then obtain r where r: "tlv_body data i out = Inr r"
      using tlv_body_total by blast
    show ?thesis
    proof (cases r)
      case Stop
      with True r show ?thesis by (simp add: parse_tlv_loop_Stop)
    next
      case (Next i' out')
      with True r have "parse_tlv_loop data i out = parse_tlv_loop data i' out'"
        by (simp add: parse_tlv_loop_Next)
      moreover have "\<exists>m. parse_tlv_loop data i' out' = Inr m"
        using True r Next by (rule "1.IH")
      ultimately show ?thesis by simp
    qed
  qed
qed

lemma tlv_decompose:
  "i \<le> length data \<Longrightarrow>
   \<exists>rs rest. drop i data = tlv_encode rs @ rest \<and> tlv_wf rs \<and> tlv_stops rest"
proof (induction "length data - i" arbitrary: i rule: less_induct)
  case less
  define len where "len = from_bytes_le (py_slice data (i + 1) (i + 3))"
  have sl: "py_slice (drop i data) 1 3 = py_slice data (i + 1) (i + 3)"
    by (simp add: py_slice_def add.commute)
  show ?case
  proof (cases "i + 3 \<le> length data \<and> i + 3 + len \<le> length data")
    case False
    then have "tlv_stops (drop i data)"
      unfolding tlv_stops_def sl len_def [symmetric] by auto
    then have "drop i data = tlv_encode [] @ drop i data \<and> tlv_wf [] \<and> tlv_stops (drop i data)"
      by (simp add: tlv_encode_def tlv_wf_def)
    then show ?thesis by blast
  next
    case True
    define v where "v = py_slice data (i + 3) (i + 3 + len)"
    define hd2 where "hd2 = py_slice data (i + 1) (i + 3)"
    have lv: "length v = len"
      using True by (auto simp: v_def py_slice_def)
    have l2: "length hd2 = 2"
      using True by (auto simp: hd2_def py_slice_def)
    have "len < 256 ^ length hd2"
      unfolding len_def hd2_def by (rule from_bytes_le_bound)
    then have small: "length v < 65536"
      by (simp add: lv l2)
    have lh: "len = from_bytes_le hd2"
      by (simp only: len_def hd2_def)
    have dg: "le_digits 2 (length v) = hd2"
      unfolding lv lh using le_digits_from_bytes [of hd2] by (simp only: l2)
    have "drop i data = data ! i # drop (Suc i) data"
      using True by (simp add: Cons_nth_drop_Suc)
    also have "drop (Suc i) data = hd2 @ drop (i + 3) data"
    proof -
      have "take 2 (drop (Suc i) data) = hd2"
        by (simp add: hd2_def py_slice_def)
      moreover have "2 + Suc i = i + 3"
        by simp
      then have "drop 2 (drop (Suc i) data) = drop (i + 3) data"
        by (simp only: drop_drop)
      ultimately show ?thesis
        using append_take_drop_id [of 2 "drop (Suc i) data"] by simp
    qed
    also have "drop (i + 3) data = v @ drop (i + 3 + len) data"
    proof -
      have "take len (drop (i + 3) data) = v"
        by (simp add: v_def py_slice_def)
      moreover have "len + (i + 3) = i + 3 + len"
        by simp
      then have "drop len (drop (i + 3) data) = drop (i + 3 + len) data"
        by (simp only: drop_drop)
      ultimately show ?thesis
        using append_take_drop_id [of len "drop (i + 3) data"] by simp
    qed
    finally have step: "drop i data = tlv_record (data ! i) v @ drop (i + 3 + len) data"
      by (simp add: tlv_record_def dg)
    have "length data - (i + 3 + len) < length data - i"
      using True by linarith
    moreover have "i + 3 + len \<le> length data"
      using True by simp
    ultimately obtain rs rest where
      IH: "drop (i + 3 + len) data = tlv_encode rs @ rest" "tlv_wf rs" "tlv_stops rest"
      using less.hyps by blast
    have "drop i data = tlv_encode ((data ! i, v) # rs) @ rest"
      by (simp add: step IH(1) tlv_encode_def)
    moreover have "tlv_wf ((data ! i, v) # rs)"
      using small IH(2) by (simp add: tlv_wf_def)
    ultimately show ?thesis
      using IH(3) by blast
  qed
qed

section \<open>Claims about the TLV parser\<close>

lemma tlv_encode_example:
  "tlv_encode [(1, ascii ''Hello''), (3, ascii ''Hi!'')]
   = [1, 5, 0, 72, 101, 108, 108, 111, 3, 3, 0, 72, 105, 33]"
  by (simp add: tlv_encode_def tlv_record_def ascii_def numeral_2_eq_2)

lemma parse_tlv_example_full:
  "parse_tlv_attributes [1, 5, 0, 72, 101, 108, 108, 111, 3, 3, 0, 72, 105, 33]
   = Inr [NA_TITLE \<mapsto> ascii ''Hello'', NA_MESSAGE \<mapsto> ascii ''Hi!'']"
proof -
  have "parse_tlv_attributes (tlv_encode [(1, ascii ''Hello''), (3, ascii ''Hi!'')] @ [])
        = Inr (attrs_of [(1, ascii ''Hello''), (3, ascii ''Hi!'')])"
    by (rule parse_tlv_attributes_encode) (simp_all add: tlv_wf_def tlv_stops_def ascii_def)
  moreover have "attrs_of [(1, ascii ''Hello''), (3, ascii ''Hi!'')]
        = [NA_TITLE \<mapsto> ascii ''Hello'', NA_MESSAGE \<mapsto> ascii ''Hi!'']"
    by (rule ext) (simp add: attrs_of_def NA_TITLE_def NA_MESSAGE_def)
  ultimately show ?thesis
    by (simp add: tlv_encode_example)
qed

lemma parse_tlv_example_truncated:
  "parse_tlv_attributes [1, 5, 0, 72, 101, 108, 108, 111, 3, 3, 0, 72, 105]
   = Inr [NA_TITLE \<mapsto> ascii ''Hello'']"
proof -
  have "parse_tlv_attributes (tlv_encode [(1, ascii ''Hello'')] @ [3, 3, 0, 72, 105])
        = Inr (attrs_of [(1, ascii ''Hello'')])"
    by (rule parse_tlv_attributes_encode)
       (simp_all add: tlv_wf_def tlv_stops_def ascii_def py_slice_def)
  moreover have "attrs_of [(1, ascii ''Hello'')] = [NA_TITLE \<mapsto> ascii ''Hello'']"
    by (rule ext) (simp add: attrs_of_def NA_TITLE_def)
  moreover have "tlv_encode [(1, ascii ''Hello'')] @ [3, 3, 0, 72, 105]
        = [1, 5, 0, 72, 101, 108, 108, 111, 3, 3, 0, 72, 105]"
    by (simp add: tlv_encode_def tlv_record_def ascii_def numeral_2_eq_2)
  ultimately show ?thesis
    by simp
qed

lemma attrs_of_last:
  assumes "k \<notin> fst ` set rs2"
  shows "attrs_of (rs1 @ (k, v) # rs2) (unat k) = Some v"
proof -
  have "unat k \<notin> fst ` set (rev (map (\<lambda>(k, v). (unat k, v)) rs2))"
    using assms by (force simp: image_iff word_unat_eq_iff)
  then have "map_of (rev (map (\<lambda>(k, v). (unat k, v)) rs2)) (unat k) = None"
    by (simp add: map_of_eq_None_iff)
  then show ?thesis
    by (simp add: attrs_of_def map_add_def)
qed

text \<open>
  C1. Every byte buffer is a run of complete records followed by a rest at which the
  parser stops (fewer than three bytes left, or a declared length that runs past the
  end), and the parser returns, as a successful result, the mapping of exactly those
  complete records; this holds for every way of writing a buffer as such a run and
  rest. The buffer \<open>01 05 00 48 65 6C 6C 6F 03 03 00 48 69 21\<close> gives
  \<open>{Title: "Hello", Message: "Hi!"}\<close>, and without its last byte \<open>{Title: "Hello"}\<close>.
\<close>

theorem parse_tlv_partial:
  "(\<exists>rs rest. data = tlv_encode rs @ rest \<and> tlv_wf rs \<and> tlv_stops rest
       \<and> parse_tlv_attributes data = Inr (attrs_of rs))
   \<and> (\<forall>rs rest. tlv_wf rs \<and> tlv_stops rest
         \<longrightarrow> parse_tlv_attributes (tlv_encode rs @ rest) = Inr (attrs_of rs))
   \<and> parse_tlv_attributes [1, 5, 0, 72, 101, 108, 108, 111, 3, 3, 0, 72, 105, 33]
       = Inr [NA_TITLE \<mapsto> ascii ''Hello'', NA_MESSAGE \<mapsto> ascii ''Hi!'']
   \<and> parse_tlv_attributes [1, 5, 0, 72, 101, 108, 108, 111, 3, 3, 0, 72, 105]
       = Inr [NA_TITLE \<mapsto> ascii ''Hello'']"
proof -
  obtain rs rest where d: "drop 0 data = tlv_encode rs @ rest" "tlv_wf rs" "tlv_stops rest"
    using tlv_decompose [of 0 data] by auto
  then have "data = tlv_encode rs @ rest \<and> tlv_wf rs \<and> tlv_stops rest
       \<and> parse_tlv_attributes data = Inr (attrs_of rs)"
    using parse_tlv_attributes_encode [of rs rest] by simp
  then show ?thesis
    using parse_tlv_attributes_encode parse_tlv_example_full
      parse_tlv_example_truncated by blast
qed

theorem parse_tlv_partial_witness:
  "tlv_wf [(1, ascii ''Hello'')] \<and> tlv_stops [3, 3, 0, 72, 105]
   \<and> parse_tlv_attributes (tlv_encode [(1, ascii ''Hello'')] @ [3, 3, 0, 72, 105])
       = Inr (attrs_of [(1, ascii ''Hello'')])"
proof -
  have wf: "tlv_wf [(1, ascii ''Hello'')]"
    by (simp add: tlv_wf_def ascii_def)
  have stops: "tlv_stops [3, 3, 0, 72, 105]"
    by (simp add: tlv_stops_def py_slice_def)
  from parse_tlv_partial [of "[]"] wf stops show ?thesis
    by blast
qed

text \<open>
  C9. When a buffer holds several complete records of one attribute kind, the parsed
  mapping binds that kind to the value of the last of them: whatever records come
  before a record of kind \<open>k\<close>, if none of kind \<open>k\<close> comes after it, its value is the
  one the result holds for \<open>k\<close>.
\<close>

theorem parse_tlv_last_wins:
  assumes "tlv_wf (rs1 @ (k, v) # rs2)" and "tlv_stops rest" and "k \<notin> fst ` set rs2"
  shows "\<exists>m. parse_tlv_attributes (tlv_encode (rs1 @ (k, v) # rs2) @ rest) = Inr m
             \<and> m (unat k) = Some v"
  using parse_tlv_attributes_encode [OF assms(1,2)] attrs_of_last [OF assms(3)] by simp

theorem parse_tlv_last_wins_witness:
  "\<exists>m. parse_tlv_attributes [1, 1, 0, 65, 3, 0, 0, 1, 2, 0, 66, 67, 9] = Inr m
       \<and> m NA_TITLE = Some (ascii ''BC'')"
proof -
  have "tlv_wf ([(1, ascii ''A''), (3, [])] @ (1, ascii ''BC'') # [])"
    by (simp add: tlv_wf_def ascii_def)
  moreover have "tlv_stops [9]"
    by (simp add: tlv_stops_def)
  moreover have "(1 :: byte) \<notin> fst ` set []"
    by simp
  ultimately have
    "\<exists>m. parse_tlv_attributes (tlv_encode ([(1, ascii ''A''), (3, [])] @ (1, ascii ''BC'') # []) @ [9]) = Inr m
         \<and> m (unat (1 :: byte)) = Some (ascii ''BC'')"
    by (rule parse_tlv_last_wins)
  moreover have "tlv_encode ([(1, ascii ''A''), (3, [])] @ (1, ascii ''BC'') # []) @ [9]
        = [1, 1, 0, 65, 3, 0, 0, 1, 2, 0, 66, 67, 9]"
    by (simp add: tlv_encode_def tlv_record_def ascii_def numeral_2_eq_2)
  ultimately show ?thesis
    by (simp add: NA_TITLE_def)
qed

text \<open>
  C10. The parser returns a mapping for every buffer and never raises. The loop is a
  total function (its termination is proved with the definition, the measure being the
  bytes left after the cursor); an iteration entered with three bytes left reads only
  inside the buffer, and when it continues the cursor has advanced by at least three
  and is still within the buffer.
\<close>

theorem parse_tlv_total:
  "(\<exists>m. parse_tlv_attributes data = Inr m)
   \<and> (\<forall>i out. i + 3 \<le> length data \<longrightarrow>
         (\<exists>r. tlv_body data i out = Inr r
            \<and> (\<forall>i' out'. r = Next i' out' \<longrightarrow> i + 3 \<le> i' \<and> i' \<le> length data)))"
proof -
  have "\<exists>m. parse_tlv_attributes data = Inr m"
    unfolding parse_tlv_attributes_def by (rule parse_tlv_loop_total)
  moreover have "\<exists>r. tlv_body data i out = Inr r
            \<and> (\<forall>i' out'. r = Next i' out' \<longrightarrow> i + 3 \<le> i' \<and> i' \<le> length data)"
    if "i + 3 \<le> length data" for i out
    using tlv_body_total [OF that, of out] tlv_body_Next_bounds [OF that, of out] by blast
  ultimately show ?thesis
    by blast
qed

theorem parse_tlv_total_witness:
  "(0 :: nat) + 3 \<le> length [1 :: byte, 1, 0, 65, 7]
   \<and> (\<exists>m. parse_tlv_attributes [1, 1, 0, 65, 7] = Inr m)
   \<and> (\<exists>r. tlv_body [1, 1, 0, 65, 7] 0 Map.empty = Inr r)"
proof -
  have h: "(0 :: nat) + 3 \<le> length [1 :: byte, 1, 0, 65, 7]"
    by simp
  from parse_tlv_total [of "[1, 1, 0, 65, 7]"] h show ?thesis
    by blast
qed

section \<open>Claims about the notification-source handler\<close>

lemma ns_fields_ok:
  assumes "8 \<le> length data"
  shows "ns_fields data =
     Inr \<lparr>event_id = unat (data ! 0), event_flags = unat (data ! 1),
          category_id = unat (data ! 2), category_count = unat (data ! 3),
          ev_uid = from_bytes_le (py_slice data 4 8),
          category = dict_get CATEGORIES (unat (data ! 2))
                       (lit ''Unknown('' @ str_nat (unat (data ! 2)) @ lit '')''),
          event_name = dict_get EVENT_NAMES (unat (data ! 0))
                       (lit ''Unknown('' @ str_nat (unat (data ! 0)) @ lit '')'')\<rparr>"
  using assms by (auto simp: ns_fields_def getitem_def bind_res_def)

lemma py_slice_4_8:
  assumes "8 \<le> length data"
  shows "py_slice data 4 8 = [data ! 4, data ! 5, data ! 6, data ! 7]"
proof -
  have "drop 4 data = data ! 4 # drop 5 data"
    using assms Cons_nth_drop_Suc [of 4 data] by simp
  also have "drop 5 data = data ! 5 # drop 6 data"
    using assms Cons_nth_drop_Suc [of 5 data] by simp
  also have "drop 6 data = data ! 6 # drop 7 data"
    using assms Cons_nth_drop_Suc [of 6 data] by simp
  also have "drop 7 data = data ! 7 # drop 8 data"
    using assms Cons_nth_drop_Suc [of 7 data] by simp
  finally show ?thesis
    by (simp add: py_slice_def)
qed

lemma uid_of_bytes:
  assumes "8 \<le> length data"
  shows "from_bytes_le (py_slice data 4 8)
         = unat (data ! 4) + 256 * unat (data ! 5) + 65536 * unat (data ! 6)
           + 16777216 * unat (data ! 7)"
  by (simp add: py_slice_4_8 [OF assms])

lemma event_name_cases:
  "dict_get EVENT_NAMES (unat (b :: byte)) d =
     (if b = 0 then lit ''Added'' else if b = 1 then lit ''Modified''
      else if b = 2 then lit ''Removed'' else d)"
proof -
  have "b = 0 \<longleftrightarrow> unat b = 0" "b = 1 \<longleftrightarrow> unat b = 1" "b = 2 \<longleftrightarrow> unat b = 2"
    by (simp_all add: word_unat_eq_iff)
  then show ?thesis
    by (simp add: dict_get_def EVENT_NAMES_def)
qed

lemma category_cases:
  "dict_get CATEGORIES c d = (if c < 12 then spec_category_names ! c else d)"
proof (cases "c < 12")
  case True
  then have "c = 0 \<or> c = 1 \<or> c = 2 \<or> c = 3 \<or> c = 4 \<or> c = 5 \<or> c = 6 \<or> c = 7
             \<or> c = 8 \<or> c = 9 \<or> c = 10 \<or> c = 11"
    by arith
  then show ?thesis
    by (elim disjE) (simp_all add: dict_get_def CATEGORIES_def spec_category_names_def)
next
  case False
  then show ?thesis
    by (simp add: dict_get_def CATEGORIES_def)
qed

lemma ns_fields_take:
  assumes "8 \<le> length data"
  shows "ns_fields (take 8 data) = ns_fields data"
proof -
  have "py_slice (take 8 data) 4 8 = py_slice data 4 8"
    by (simp add: py_slice_def drop_take)
  moreover have "8 \<le> length (take 8 data)"
    using assms by simp
  ultimately show ?thesis
    using assms by (simp add: ns_fields_ok)
qed

lemma ns_example:
  "ns_fields [0, 1, 4, 1, 42, 0, 0, 0] =
     Inr \<lparr>event_id = 0, event_flags = 1, category_id = 4, category_count = 1, ev_uid = 42,
          category = lit ''Social'', event_name = lit ''Added''\<rparr>"
  by (simp add: ns_fields_ok py_slice_def dict_get_def CATEGORIES_def EVENT_NAMES_def)

lemma fmt_flags_example: "fmt_08b 1 = lit ''00000001''"
  by (simp add: fmt_08b_def bin_nat.simps lit_def numeral_eq_Suc)

lemma ns_packet_fields:
  assumes "u < 2 ^ 32"
  shows "ns_fields (ns_packet k fl c n u @ extra) =
     Inr \<lparr>event_id = unat k, event_flags = unat fl, category_id = unat c,
          category_count = unat n, ev_uid = u,
          category = dict_get CATEGORIES (unat c) (lit ''Unknown('' @ str_nat (unat c) @ lit '')''),
          event_name = dict_get EVENT_NAMES (unat k)
                         (lit ''Unknown('' @ str_nat (unat k) @ lit '')'')\<rparr>"
proof -
  let ?d = "ns_packet k fl c n u @ extra"
  have len: "8 \<le> length ?d"
    by (simp add: ns_packet_def)
  have "py_slice ?d 4 8 = le_digits 4 u"
    by (simp add: py_slice_def ns_packet_def)
  moreover have "from_bytes_le (le_digits 4 u) = u"
    using assms by (intro from_bytes_le_digits) simp
  ultimately show ?thesis
    by (simp add: ns_fields_ok [OF len]) (simp add: ns_packet_def)
qed

lemma length_ns_packet [simp]: "length (ns_packet k fl c n u) = 8"
  by (simp add: ns_packet_def)

lemma on_ns_packet:
  assumes "u < 2 ^ 32"
  shows "\<exists>ev. ns_fields (ns_packet k fl c n u @ extra) = Inr ev \<and> ev_uid ev = u
     \<and> event_id ev = unat k
     \<and> on_notification_source s (ns_packet k fl c n u @ extra) =
         Inr (if k = 0 then s\<lparr>stdout := stdout s @ [ns_line ev], tasks := tasks s @ [u]\<rparr>
              else if k = 2
                then s\<lparr>pending := (pending s)(u := None), stdout := stdout s @ [ns_line ev]\<rparr>
              else s\<lparr>stdout := stdout s @ [ns_line ev]\<rparr>)"
proof -
  have "k = 0 \<longleftrightarrow> unat k = 0" "k = 2 \<longleftrightarrow> unat k = 2"
    by (simp_all add: word_unat_eq_iff)
  then show ?thesis
    by (simp add: on_notification_source_def ns_packet_fields [OF assms] bind_res_def
          py_print_def Let_def dict_pop_def EVENT_ADDED_def EVENT_REMOVED_def)
qed

text \<open>
  C2. For a buffer of at least 8 bytes the handler reads byte 0 as the event kind
  (0 Added, 1 Modified, 2 Removed, any other value named \<open>Unknown(n)\<close> with its code),
  byte 1 as the flags, unchanged, byte 2 as the category id, named through the table
  for 0 to 11 and \<open>Unknown(n)\<close> beyond it, byte 3 as the category count, and bytes 4 to
  7 as a little-endian 32-bit uid; bytes after the eighth change nothing. The packet
  \<open>00 01 04 01 2A 00 00 00\<close> gives Added, flags \<open>0b00000001\<close>, Social, count 1, uid 42.
\<close>

theorem ns_decode:
  assumes "8 \<le> length data"
  shows "\<exists>ev. ns_fields data = Inr ev
     \<and> event_id ev = unat (data ! 0)
     \<and> event_name ev =
         (if data ! 0 = 0 then lit ''Added'' else if data ! 0 = 1 then lit ''Modified''
          else if data ! 0 = 2 then lit ''Removed''
          else lit ''Unknown('' @ str_nat (unat (data ! 0)) @ lit '')'')
     \<and> event_flags ev = unat (data ! 1)
     \<and> category_id ev = unat (data ! 2)
     \<and> category ev =
         (if unat (data ! 2) < 12 then spec_category_names ! unat (data ! 2)
          else lit ''Unknown('' @ str_nat (unat (data ! 2)) @ lit '')'')
     \<and> category_count ev = unat (data ! 3)
     \<and> ev_uid ev = unat (data ! 4) + 256 * unat (data ! 5) + 65536 * unat (data ! 6)
                    + 16777216 * unat (data ! 7)
     \<and> ns_fields (take 8 data) = Inr ev
     \<and> ns_fields [0, 1, 4, 1, 42, 0, 0, 0] =
         Inr \<lparr>event_id = 0, event_flags = 1, category_id = 4, category_count = 1,
              ev_uid = 42, category = lit ''Social'', event_name = lit ''Added''\<rparr>
     \<and> fmt_08b 1 = lit ''00000001''"
  using ns_fields_take [OF assms] ns_example fmt_flags_example
  by (simp add: ns_fields_ok [OF assms] uid_of_bytes [OF assms] event_name_cases
        category_cases)

theorem ns_decode_witness:
  "8 \<le> length [7, 255, 12, 3, 1, 2, 3, 4, 99 :: byte]
   \<and> (\<exists>ev. ns_fields [7, 255, 12, 3, 1, 2, 3, 4, 99] = Inr ev
          \<and> event_name ev = lit ''Unknown(7)'' \<and> event_flags ev = 255
          \<and> category ev = lit ''Unknown(12)'' \<and> category_count ev = 3
          \<and> ev_uid ev = 67305985)"
proof -
  have h: "8 \<le> length [7, 255, 12, 3, 1, 2, 3, 4, 99 :: byte]"
    by simp
  have n7: "str_nat 7 = lit ''7''" and n12: "str_nat 12 = lit ''12''"
    by (simp_all add: str_nat.simps lit_def)
  from ns_decode [OF h] h show ?thesis
    by (auto simp: n7 n12 lit_def)
qed

text \<open>
  C5. A buffer shorter than 8 bytes is reported as a short packet and dropped: the
  handler prints the line, changes nothing else and raises nothing. A buffer of at
  least 8 bytes is always decoded: the handler raises nothing, whatever the event
  kind and category bytes are.
\<close>

theorem ns_short_packet:
  "(length data < 8 \<longrightarrow>
      (\<exists>s'. on_notification_source s data = Inr s'
         \<and> stdout s' = stdout s @ [lit ''[ns] Short packet: '' @ bytes_hex data]
         \<and> pending s' = pending s \<and> tasks s' = tasks s \<and> written s' = written s
         \<and> client s' = client s))
   \<and> (8 \<le> length data \<longrightarrow>
      (\<exists>ev s'. ns_fields data = Inr ev \<and> on_notification_source s data = Inr s'
         \<and> stdout s' = stdout s @ [ns_line ev]))"
proof (intro conjI impI)
  assume "length data < 8"
  then show "\<exists>s'. on_notification_source s data = Inr s'
         \<and> stdout s' = stdout s @ [lit ''[ns] Short packet: '' @ bytes_hex data]
         \<and> pending s' = pending s \<and> tasks s' = tasks s \<and> written s' = written s
         \<and> client s' = client s"
    by (simp add: on_notification_source_def py_print_def)
next
  assume len: "8 \<le> length data"
  then show "\<exists>ev s'. ns_fields data = Inr ev \<and> on_notification_source s data = Inr s'
         \<and> stdout s' = stdout s @ [ns_line ev]"
    by (simp add: on_notification_source_def ns_fields_ok [OF len] bind_res_def
          py_print_def Let_def)
qed

theorem ns_short_packet_witness:
  "length [0, 1, 4 :: byte] < 8
   \<and> (\<exists>s'. on_notification_source \<lparr>client = True, pending = Map.empty, stdout = [],
                 tasks = [], written = []\<rparr> [0, 1, 4] = Inr s'
          \<and> stdout s' = [lit ''[ns] Short packet: 000104''] \<and> tasks s' = [])
   \<and> 8 \<le> length [9, 0, 200, 0, 1, 0, 0, 0 :: byte]
   \<and> (\<exists>ev s'. ns_fields [9, 0, 200, 0, 1, 0, 0, 0] = Inr ev
          \<and> on_notification_source \<lparr>client = True, pending = Map.empty, stdout = [],
                 tasks = [], written = []\<rparr> [9, 0, 200, 0, 1, 0, 0, 0] = Inr s'
          \<and> stdout s' = [ns_line ev])"
proof -
  let ?s = "\<lparr>client = True, pending = Map.empty, stdout = [], tasks = [], written = []\<rparr>"
  have h1: "length [0, 1, 4 :: byte] < 8" and h2: "8 \<le> length [9, 0, 200, 0, 1, 0, 0, 0 :: byte]"
    by simp_all
  have hex: "bytes_hex [0, 1, 4] = lit ''000104''"
    by (simp add: bytes_hex_def hex_digit_def lit_def)
  from ns_short_packet [of "[0, 1, 4]" ?s] h1
  have "\<exists>s'. on_notification_source ?s [0, 1, 4] = Inr s'
          \<and> stdout s' = [lit ''[ns] Short packet: '' @ bytes_hex [0, 1, 4]] \<and> tasks s' = []"
    by auto
  then have a: "\<exists>s'. on_notification_source ?s [0, 1, 4] = Inr s'
          \<and> stdout s' = [lit ''[ns] Short packet: 000104''] \<and> tasks s' = []"
    by (simp add: hex lit_def)
  from ns_short_packet [of "[9, 0, 200, 0, 1, 0, 0, 0]" ?s] h2
  have b: "\<exists>ev s'. ns_fields [9, 0, 200, 0, 1, 0, 0, 0] = Inr ev
          \<and> on_notification_source ?s [9, 0, 200, 0, 1, 0, 0, 0] = Inr s'
          \<and> stdout s' = [ns_line ev]"
    by auto
  from h1 a h2 b show ?thesis
    by blast
qed

text \<open>
  C6. A Removed event for a uid removes any pending entry of that uid; it prints the
  event line only, creates no task and writes no command. A Modified event leaves the
  pending table as it is, creates no task and writes no command.
\<close>

theorem ns_removed_modified:
  assumes "u < 2 ^ 32"
  shows "(\<exists>ev s'. ns_fields (ns_packet 2 fl c n u @ extra) = Inr ev \<and> ev_uid ev = u
           \<and> on_notification_source s (ns_packet 2 fl c n u @ extra) = Inr s'
           \<and> pending s' = (pending s)(u := None) \<and> u \<notin> dom (pending s')
           \<and> stdout s' = stdout s @ [ns_line ev]
           \<and> tasks s' = tasks s \<and> written s' = written s)
     \<and> (\<exists>ev s'. ns_fields (ns_packet 1 fl c n u @ extra) = Inr ev \<and> ev_uid ev = u
           \<and> on_notification_source s (ns_packet 1 fl c n u @ extra) = Inr s'
           \<and> pending s' = pending s
           \<and> stdout s' = stdout s @ [ns_line ev]
           \<and> tasks s' = tasks s \<and> written s' = written s)"
  using on_ns_packet [OF assms, of 2 fl c n extra s] on_ns_packet [OF assms, of 1 fl c n extra s]
  by auto

theorem ns_removed_modified_witness:
  "(7 :: nat) < 2 ^ 32
   \<and> (\<exists>s'. on_notification_source
               \<lparr>client = True,
                pending = [7 \<mapsto> \<lparr>pr_uid = 7, pr_expecting = ''notification_attributes''\<rparr>],
                stdout = [], tasks = [], written = []\<rparr> (ns_packet 2 0 4 1 7 @ []) = Inr s'
          \<and> pending s' 7 = None \<and> tasks s' = [] \<and> written s' = [])
   \<and> (\<exists>s'. on_notification_source
               \<lparr>client = True,
                pending = [7 \<mapsto> \<lparr>pr_uid = 7, pr_expecting = ''notification_attributes''\<rparr>],
                stdout = [], tasks = [], written = []\<rparr> (ns_packet 1 0 4 1 7 @ []) = Inr s'
          \<and> pending s' 7 = Some \<lparr>pr_uid = 7, pr_expecting = ''notification_attributes''\<rparr>
          \<and> tasks s' = [] \<and> written s' = [])"
proof -
  have h: "(7 :: nat) < 2 ^ 32"
    by simp
  from ns_removed_modified [OF h, of 0 4 1 "[]"
      "\<lparr>client = True,
        pending = [7 \<mapsto> \<lparr>pr_uid = 7, pr_expecting = ''notification_attributes''\<rparr>],
        stdout = [], tasks = [], written = []\<rparr>"] h
  show ?thesis
    by auto
qed

text \<open>
  C8. Removing a uid that is not in the pending table returns nothing and leaves the
  table as it is; a second removal after any removal does the same; and a Removed
  event for a uid that is not pending leaves the table unchanged and raises nothing.
\<close>

theorem remove_absent_noop:
  "(tbl u = None \<longrightarrow> dict_pop tbl u = (None, tbl))
   \<and> dict_pop (snd (dict_pop tbl u)) u = (None, snd (dict_pop tbl u))
   \<and> (pending s u = None \<and> u < 2 ^ 32 \<longrightarrow>
        (\<exists>s'. on_notification_source s (ns_packet 2 fl c n u @ extra) = Inr s'
           \<and> pending s' = pending s))"
proof (intro conjI impI)
  show "dict_pop (snd (dict_pop tbl u)) u = (None, snd (dict_pop tbl u))"
    by (simp add: dict_pop_def)
next
  assume "tbl u = None"
  then have "tbl(u := None) = tbl"
    by (simp add: fun_upd_idem)
  then show "dict_pop tbl u = (None, tbl)"
    using \<open>tbl u = None\<close> by (simp add: dict_pop_def)
next
  assume a: "pending s u = None \<and> u < 2 ^ 32"
  then have "(pending s)(u := None) = pending s"
    by (simp add: fun_upd_idem)
  then show "\<exists>s'. on_notification_source s (ns_packet 2 fl c n u @ extra) = Inr s'
           \<and> pending s' = pending s"
    using a on_ns_packet [of u 2 fl c n extra s] by auto
qed

theorem remove_absent_noop_witness:
  "[3 \<mapsto> \<lparr>pr_uid = 3, pr_expecting = ''notification_attributes''\<rparr>] (7 :: nat) = None
   \<and> dict_pop [3 \<mapsto> \<lparr>pr_uid = 3, pr_expecting = ''notification_attributes''\<rparr>] (7 :: nat)
       = (None, [3 \<mapsto> \<lparr>pr_uid = 3, pr_expecting = ''notification_attributes''\<rparr>])
   \<and> (7 :: nat) < 2 ^ 32
   \<and> (\<exists>s'. on_notification_source
               \<lparr>client = True,
                pending = [3 \<mapsto> \<lparr>pr_uid = 3, pr_expecting = ''notification_attributes''\<rparr>],
                stdout = [], tasks = [], written = []\<rparr> (ns_packet 2 0 4 1 7 @ []) = Inr s'
          \<and> pending s' = [3 \<mapsto> \<lparr>pr_uid = 3, pr_expecting = ''notification_attributes''\<rparr>])"
proof -
  let ?t = "[3 \<mapsto> \<lparr>pr_uid = 3, pr_expecting = ''notification_attributes''\<rparr>]"
  let ?s = "\<lparr>client = True, pending = ?t, stdout = [], tasks = [], written = []\<rparr>"
  have h: "?t (7 :: nat) = None"
    by simp
  have h': "pending ?s 7 = None \<and> (7 :: nat) < 2 ^ 32"
    by simp
  from remove_absent_noop [of ?t 7 ?s 0 4 1 "[]"] h
  have a: "dict_pop ?t (7 :: nat) = (None, ?t)"
    by blast
  from remove_absent_noop [of ?t 7 ?s 0 4 1 "[]"] h'
  have "\<exists>s'. on_notification_source ?s (ns_packet 2 0 4 1 7 @ []) = Inr s'
          \<and> pending s' = pending ?s"
    by blast
  then have b: "\<exists>s'. on_notification_source ?s (ns_packet 2 0 4 1 7 @ []) = Inr s'
          \<and> pending s' = ?t"
    by simp
  from h a h' b show ?thesis
    by blast
qed

section \<open>Claims about the control-point request\<close>

lemma le_digits_4:
  "le_digits 4 v = [of_nat (v mod 256), of_nat (v div 256 mod 256),
                    of_nat (v div 256 div 256 mod 256),
                    of_nat (v div 256 div 256 div 256 mod 256)]"
proof -
  have "(4 :: nat) = Suc (Suc (Suc (Suc 0)))"
    by simp
  then show ?thesis
    by (simp only: le_digits.simps)
qed

lemma to_bytes_le_4: "u < 2 ^ 32 \<Longrightarrow> to_bytes_le u 4 = Inr (le_digits 4 u)"
  by (simp add: to_bytes_le_def)

lemma max_len_bytes:
  "to_bytes_le MAX_TITLE_LEN 2 = Inr [64, 0]" "to_bytes_le MAX_MESSAGE_LEN 2 = Inr [0, 1]"
  by (simp_all add: to_bytes_le_def MAX_TITLE_LEN_def MAX_MESSAGE_LEN_def numeral_2_eq_2)

lemma build_cmd_ok:
  assumes "u < 2 ^ 32"
  shows "build_cmd u = Inr (0 # le_digits 4 u @ [0, 1, 64, 0, 3, 0, 1])"
  by (simp add: build_cmd_def to_bytes_le_4 [OF assms] max_len_bytes bind_res_def
        CP_GET_NOTIFICATION_ATTRIBUTES_def NA_APP_IDENTIFIER_def NA_TITLE_def NA_MESSAGE_def)

lemma spec_encode_request:
  "spec_encode u [(NA_APP_IDENTIFIER, None), (NA_TITLE, Some MAX_TITLE_LEN),
                  (NA_MESSAGE, Some MAX_MESSAGE_LEN)]
   = 0 # le_digits 4 u @ [0, 1, 64, 0, 3, 0, 1]"
  by (simp add: spec_encode_def spec_encode_attr_def has_max_len_def NA_APP_IDENTIFIER_def
        NA_TITLE_def NA_SUBTITLE_def NA_MESSAGE_def MAX_TITLE_LEN_def MAX_MESSAGE_LEN_def
        numeral_2_eq_2)

lemma spec_decode_request:
  assumes "u < 2 ^ 32"
  shows "spec_decode_uid (0 # le_digits 4 u @ [0, 1, 64, 0, 3, 0, 1]) = u"
    and "spec_decode_kinds (drop 5 (0 # le_digits 4 u @ [0, 1, 64, 0, 3, 0, 1]))
         = [NA_APP_IDENTIFIER, NA_TITLE, NA_MESSAGE]"
proof -
  have "from_bytes_le (le_digits 4 u) = u"
    using assms by (intro from_bytes_le_digits) simp
  then show "spec_decode_uid (0 # le_digits 4 u @ [0, 1, 64, 0, 3, 0, 1]) = u"
    by (simp add: spec_decode_uid_def py_slice_def)
  show "spec_decode_kinds (drop 5 (0 # le_digits 4 u @ [0, 1, 64, 0, 3, 0, 1]))
         = [NA_APP_IDENTIFIER, NA_TITLE, NA_MESSAGE]"
    by (simp add: has_max_len_def NA_APP_IDENTIFIER_def NA_TITLE_def NA_SUBTITLE_def
          NA_MESSAGE_def)
qed

lemma request_end_failed:
  "request_end s u (WriteFailed e)
   = s\<lparr>pending := (pending s)(u := None), stdout := stdout s @ [lit ''[cp] Write failed: '' @ e]\<rparr>"
  by (simp add: request_end_def py_print_def dict_pop_def Let_def)

lemma request_failed:
  assumes "client s" and "u < 2 ^ 32"
  shows "request_notification_attributes s u (WriteFailed e)
   = Inr (s\<lparr>pending := (pending s)(u := None),
             stdout := stdout s @ [lit ''[cp] Write failed: '' @ e],
             written := written s @ [0 # le_digits 4 u @ [0, 1, 64, 0, 3, 0, 1]]\<rparr>)"
  using assms(1)
  by (simp add: request_notification_attributes_def request_begin_def build_cmd_ok [OF assms(2)]
        bind_res_def request_end_failed)

text \<open>
  C3. For every 32-bit uid the command is the command id 0, the uid as four
  little-endian bytes, then the kind bytes of application identifier, title and message
  in this order, title and message each followed by its two-byte little-endian maximum
  length (64 and 256) and the application identifier by none: it is the layout of the
  specification for the kinds [AppIdentifier, Title(64), Message(256)]. Reading the
  bytes back gives the uid and the same kinds in the same order, and these bytes are
  what the coroutine hands to the transport.
\<close>

theorem build_cmd_layout:
  assumes "u < 2 ^ 32"
  shows "\<exists>cmd. build_cmd u = Inr cmd
     \<and> cmd = 0 # le_digits 4 u @ [0, 1, 64, 0, 3, 0, 1]
     \<and> cmd = spec_encode u [(NA_APP_IDENTIFIER, None), (NA_TITLE, Some MAX_TITLE_LEN),
                              (NA_MESSAGE, Some MAX_MESSAGE_LEN)]
     \<and> spec_decode_uid cmd = u
     \<and> spec_decode_kinds (drop 5 cmd) = [NA_APP_IDENTIFIER, NA_TITLE, NA_MESSAGE]
     \<and> (client s \<longrightarrow> (\<exists>s'. request_begin s u = Inr (s', True)
                              \<and> written s' = written s @ [cmd]))"
proof -
  let ?cmd = "0 # le_digits 4 u @ [0, 1, 64, 0, 3, 0, 1]"
  have b: "build_cmd u = Inr ?cmd"
    by (rule build_cmd_ok [OF assms])
  have e: "?cmd = spec_encode u [(NA_APP_IDENTIFIER, None), (NA_TITLE, Some MAX_TITLE_LEN),
                              (NA_MESSAGE, Some MAX_MESSAGE_LEN)]"
    by (rule spec_encode_request [symmetric])
  have w: "client s \<longrightarrow> (\<exists>s'. request_begin s u = Inr (s', True)
                              \<and> written s' = written s @ [?cmd])"
    by (simp add: request_begin_def b bind_res_def)
  from b e spec_decode_request [OF assms] w show ?thesis
    by blast
qed

theorem build_cmd_layout_witness:
  "(42 :: nat) < 2 ^ 32 \<and> build_cmd 42 = Inr [0, 42, 0, 0, 0, 0, 1, 64, 0, 3, 0, 1]
   \<and> spec_decode_uid [0, 42, 0, 0, 0, 0, 1, 64, 0, 3, 0, 1] = 42"
proof -
  have h: "(42 :: nat) < 2 ^ 32"
    by simp
  have d: "le_digits 4 42 = [42, 0, 0, 0]"
    by (simp add: le_digits_4)
  from build_cmd_layout [OF h] obtain cmd where
    c: "build_cmd 42 = Inr cmd" "cmd = 0 # le_digits 4 42 @ [0, 1, 64, 0, 3, 0, 1]"
       "spec_decode_uid cmd = 42"
    by blast
  from c(2) have "cmd = [0, 42, 0, 0, 0, 0, 1, 64, 0, 3, 0, 1]"
    by (simp add: d)
  with c(1,3) h show ?thesis
    by simp
qed

text \<open>
  C4, as amended. When the write fails, the coroutine removes the pending entry of the
  uid, prints the failure and returns normally, the rest of the state untouched.
  Afterwards the uid has no pending entry; the table is the one from before the request
  when the uid had no entry then. This also holds on whatever state the failure comes
  back to, if other callbacks ran while the write was awaited.
\<close>

theorem write_failure_rollback:
  assumes "client s" and "u < 2 ^ 32"
  shows "\<exists>s'. request_notification_attributes s u (WriteFailed e) = Inr s'
     \<and> pending s' = (pending s)(u := None)
     \<and> u \<notin> dom (pending s')
     \<and> (pending s u = None \<longrightarrow> pending s' = pending s)
     \<and> stdout s' = stdout s @ [lit ''[cp] Write failed: '' @ e]
     \<and> client s' = client s \<and> tasks s' = tasks s
     \<and> (\<forall>s1. pending (request_end s1 u (WriteFailed e)) = (pending s1)(u := None))"
proof -
  have "pending s u = None \<longrightarrow> (pending s)(u := None) = pending s"
    by (simp add: fun_upd_idem)
  then show ?thesis
    by (simp add: request_failed [OF assms] request_end_failed)
qed

theorem write_failure_rollback_witness:
  "client \<lparr>client = True, pending = Map.empty, stdout = [], tasks = [], written = []\<rparr>
   \<and> (7 :: nat) < 2 ^ 32
   \<and> (\<exists>s'. request_notification_attributes
               \<lparr>client = True, pending = Map.empty, stdout = [], tasks = [], written = []\<rparr>
               7 (WriteFailed (lit ''timeout'')) = Inr s'
          \<and> pending s' = Map.empty \<and> tasks s' = [])"
proof -
  let ?s = "\<lparr>client = True, pending = Map.empty, stdout = [], tasks = [], written = []\<rparr>"
  have h1: "client ?s" and h2: "(7 :: nat) < 2 ^ 32"
    by simp_all
  from write_failure_rollback [OF h1 h2, of "lit ''timeout''"] h1 h2 show ?thesis
    by auto
qed

text \<open>
  C4, as stated, fails when the uid already had a pending entry: the entry of the
  earlier request is gone after the failed one, so the table is not the one from
  before the request.
\<close>

theorem write_failure_rollback_counterexample:
  "request_notification_attributes
     \<lparr>client = True,
      pending = [7 \<mapsto> \<lparr>pr_uid = 7, pr_expecting = ''notification_attributes''\<rparr>],
      stdout = [], tasks = [], written = []\<rparr>
     7 (WriteFailed (lit ''timeout''))
   = Inr \<lparr>client = True, pending = Map.empty,
          stdout = [lit ''[cp] Write failed: timeout''], tasks = [],
          written = [[0, 7, 0, 0, 0, 0, 1, 64, 0, 3, 0, 1]]\<rparr>
   \<and> [7 \<mapsto> \<lparr>pr_uid = 7, pr_expecting = ''notification_attributes''\<rparr>] \<noteq> Map.empty"
proof -
  have d: "le_digits 4 7 = [7, 0, 0, 0]"
    by (simp add: le_digits_4)
  show ?thesis
    by (simp add: request_failed d lit_def)
qed

section \<open>Claims about the data-source handler\<close>

lemma is_cont_low: "is_cont c \<Longrightarrow> c - 128 < 64"
  by (auto simp: is_cont_def)

lemma valid2:
  assumes "194 \<le> ch" "ch < 224" "is_cont c2"
  shows "valid_scalar ((ch - 192) * 64 + (c2 - 128))"
proof -
  have "ch - 192 < 32" "c2 - 128 < 64"
    using assms by (auto simp: is_cont_low)
  then have "(ch - 192) * 64 + (c2 - 128) < 2112"
    by linarith
  then show ?thesis
    by (simp add: valid_scalar_def)
qed

lemma valid3:
  assumes "224 \<le> ch" "ch < 240" "is_cont c2"
    "\<not> (if c2 < 160 then ch = 224 else ch = 237)" "is_cont c3"
  shows "valid_scalar ((ch - 224) * 4096 + (c2 - 128) * 64 + (c3 - 128))"
proof -
  define a b c where "a = ch - 224" and "b = c2 - 128" and "c = c3 - 128"
  have bounds: "a < 16" "b < 64" "c < 64"
    using assms by (auto simp: a_def b_def c_def is_cont_low)
  have sur: "a = 13 \<Longrightarrow> b < 32"
    using assms by (auto simp: a_def b_def is_cont_def split: if_splits)
  have "a * 4096 + b * 64 + c < 55296 \<or> 57344 \<le> a * 4096 + b * 64 + c"
  proof (cases "a < 13")
    case True
    then have "a * 4096 \<le> 12 * 4096"
      by simp
    with bounds show ?thesis by linarith
  next
    case False
    show ?thesis
    proof (cases "a = 13")
      case True
      with sur bounds show ?thesis by simp
    next
      case False
      with \<open>\<not> a < 13\<close> have "14 * 4096 \<le> a * 4096"
        by simp
      then show ?thesis by linarith
    qed
  qed
  moreover have "a * 4096 + b * 64 + c < 1114112"
    using bounds by linarith
  ultimately have "valid_scalar (a * 4096 + b * 64 + c)"
    unfolding valid_scalar_def by linarith
  then show ?thesis
    by (simp only: a_def b_def c_def)
qed

lemma valid4:
  assumes "240 \<le> ch" "ch < 245" "is_cont c2"
    "\<not> (if c2 < 144 then ch = 240 else ch = 244)" "is_cont c3" "is_cont c4"
  shows "valid_scalar ((ch - 240) * 262144 + (c2 - 128) * 4096 + (c3 - 128) * 64 + (c4 - 128))"
proof -
  define a b c d where "a = ch - 240" and "b = c2 - 128" and "c = c3 - 128" and "d = c4 - 128"
  have bounds: "a < 5" "b < 64" "c < 64" "d < 64"
    using assms by (auto simp: a_def b_def c_def d_def is_cont_low)
  have top: "a = 4 \<Longrightarrow> b < 16"
    using assms by (auto simp: a_def b_def is_cont_def split: if_splits)
  have low: "a = 0 \<Longrightarrow> 16 \<le> b"
    using assms by (auto simp: a_def b_def is_cont_def split: if_splits)
  have "a * 262144 + b * 4096 + c * 64 + d < 1114112"
  proof (cases "a = 4")
    case True
    with top bounds show ?thesis by simp
  next
    case False
    with bounds have "a * 262144 \<le> 3 * 262144"
      by simp
    with bounds show ?thesis by linarith
  qed
  moreover have "57344 \<le> a * 262144 + b * 4096 + c * 64 + d"
  proof (cases "a = 0")
    case True
    with low show ?thesis by simp
  next
    case False
    then have "1 * 262144 \<le> a * 262144"
      by simp
    then show ?thesis by linarith
  qed
  ultimately have "valid_scalar (a * 262144 + b * 4096 + c * 64 + d)"
    unfolding valid_scalar_def by linarith
  then show ?thesis
    by (simp only: a_def b_def c_def d_def)
qed

lemma utf8_step:
  "utf8_ignore (ch # s) = []
   \<or> (\<exists>t. length t \<le> length s \<and> utf8_ignore (ch # s) = utf8_ignore t)
   \<or> (\<exists>x t. valid_scalar x \<and> length t \<le> length s
          \<and> utf8_ignore (ch # s) = x # utf8_ignore t)"
proof -
  consider (ascii) "ch < 128" | (bad) "128 \<le> ch" "ch < 194" | (two) "194 \<le> ch" "ch < 224"
    | (three) "224 \<le> ch" "ch < 240" | (four) "240 \<le> ch" "ch < 245" | (high) "245 \<le> ch"
    by linarith
  then show ?thesis
  proof cases
    case ascii
    then have "valid_scalar ch" "utf8_ignore (ch # s) = ch # utf8_ignore s"
      by (simp_all add: valid_scalar_def utf8_ignore.simps(2))
    then show ?thesis by blast
  next
    case bad
    then have "utf8_ignore (ch # s) = utf8_ignore s"
      by (subst utf8_ignore.simps(2)) simp
    then show ?thesis by blast
  next
    case high
    then have "utf8_ignore (ch # s) = utf8_ignore s"
      by (subst utf8_ignore.simps(2)) simp
    then show ?thesis by blast
  next
    case two
    show ?thesis
    proof (cases s)
      case Nil
      with two have "utf8_ignore (ch # s) = []"
        by (subst utf8_ignore.simps(2)) simp
      then show ?thesis by blast
    next
      case (Cons c2 s2)
      show ?thesis
      proof (cases "is_cont c2")
        case False
        with two Cons have "utf8_ignore (ch # s) = utf8_ignore s"
          by (subst utf8_ignore.simps(2)) simp
        then show ?thesis by blast
      next
        case True
        with two Cons have
          "utf8_ignore (ch # s) = ((ch - 192) * 64 + (c2 - 128)) # utf8_ignore s2"
          by (subst utf8_ignore.simps(2)) simp
        moreover have "valid_scalar ((ch - 192) * 64 + (c2 - 128))"
          using two True by (rule valid2)
        moreover have "length s2 \<le> length s"
          using Cons by simp
        ultimately show ?thesis by blast
      qed
    qed
  next
    case three
    show ?thesis
    proof (cases s)
      case Nil
      with three have "utf8_ignore (ch # s) = []"
        by (subst utf8_ignore.simps(2)) simp
      then show ?thesis by blast
    next
      case s: (Cons c2 s2)
      show ?thesis
      proof (cases "\<not> is_cont c2 \<or> (if c2 < 160 then ch = 224 else ch = 237)")
        case True
        with three s have "utf8_ignore (ch # s) = utf8_ignore s"
          by (subst utf8_ignore.simps(2)) (auto split: if_splits)
        then show ?thesis by blast
      next
        case ok2: False
        show ?thesis
        proof (cases s2)
          case Nil
          with three s ok2 have "utf8_ignore (ch # s) = []"
            by (subst utf8_ignore.simps(2)) simp
          then show ?thesis by blast
        next
          case s2: (Cons c3 s3)
          show ?thesis
          proof (cases "is_cont c3")
            case False
            with three s ok2 s2 have "utf8_ignore (ch # s) = utf8_ignore s2"
              by (subst utf8_ignore.simps(2)) simp
            moreover have "length s2 \<le> length s"
              using s by simp
            ultimately show ?thesis by blast
          next
            case True
            with three s ok2 s2 have
              "utf8_ignore (ch # s)
               = ((ch - 224) * 4096 + (c2 - 128) * 64 + (c3 - 128)) # utf8_ignore s3"
              by (subst utf8_ignore.simps(2)) simp
            moreover have "valid_scalar ((ch - 224) * 4096 + (c2 - 128) * 64 + (c3 - 128))"
              using three ok2 True by (intro valid3) auto
            moreover have "length s3 \<le> length s"
              using s s2 by simp
            ultimately show ?thesis by blast
          qed
        qed
      qed
    qed
  next
    case four
    show ?thesis
    proof (cases s)
      case Nil
      with four have "utf8_ignore (ch # s) = []"
        by (subst utf8_ignore.simps(2)) simp
      then show ?thesis by blast
    next
      case s: (Cons c2 s2)
      show ?thesis
      proof (cases "\<not> is_cont c2 \<or> (if c2 < 144 then ch = 240 else ch = 244)")
        case True
        with four s have "utf8_ignore (ch # s) = utf8_ignore s"
          by (subst utf8_ignore.simps(2)) (auto split: if_splits)
        then show ?thesis by blast
      next
        case ok2: False
        show ?thesis
        proof (cases s2)
          case Nil
          with four s ok2 have "utf8_ignore (ch # s) = []"
            by (subst utf8_ignore.simps(2)) simp
          then show ?thesis by blast
        next
          case s2: (Cons c3 s3)
          show ?thesis
          proof (cases "is_cont c3")
            case False
            with four s ok2 s2 have "utf8_ignore (ch # s) = utf8_ignore s2"
              by (subst utf8_ignore.simps(2)) simp
            moreover have "length s2 \<le> length s"
              using s by simp
            ultimately show ?thesis by blast
          next
            case ok3: True
            show ?thesis
            proof (cases s3)
              case Nil
              with four s ok2 s2 ok3 have "utf8_ignore (ch # s) = []"
                by (subst utf8_ignore.simps(2)) simp
              then show ?thesis by blast
            next
              case s3: (Cons c4 s4)
              show ?thesis
              proof (cases "is_cont c4")
                case False
                with four s ok2 s2 ok3 s3 have "utf8_ignore (ch # s) = utf8_ignore s3"
                  by (subst utf8_ignore.simps(2)) simp
                moreover have "length s3 \<le> length s"
                  using s s2 by simp
                ultimately show ?thesis by blast
              next
                case True
                with four s ok2 s2 ok3 s3 have
                  "utf8_ignore (ch # s)
                   = ((ch - 240) * 262144 + (c2 - 128) * 4096 + (c3 - 128) * 64 + (c4 - 128))
                     # utf8_ignore s4"
                  by (subst utf8_ignore.simps(2)) simp
                moreover have "valid_scalar ((ch - 240) * 262144 + (c2 - 128) * 4096
                                 + (c3 - 128) * 64 + (c4 - 128))"
                  using four ok2 ok3 True by (intro valid4) auto
                moreover have "length s4 \<le> length s"
                  using s s2 s3 by simp
                ultimately show ?thesis by blast
              qed
            qed
          qed
        qed
      qed
    qed
  qed
qed

lemma utf8_ignore_valid: "c \<in> set (utf8_ignore bs) \<Longrightarrow> valid_scalar c"
proof (induction "length bs" arbitrary: bs rule: less_induct)
  case less
  show ?case
  proof (cases bs)
    case Nil
    with less.prems show ?thesis by (simp add: utf8_ignore.simps(1))
  next
    case (Cons ch s)
    from utf8_step [of ch s] consider
        (none) "utf8_ignore (ch # s) = []"
      | (skip) t where "length t \<le> length s" "utf8_ignore (ch # s) = utf8_ignore t"
      | (emit) x t where "valid_scalar x" "length t \<le> length s"
          "utf8_ignore (ch # s) = x # utf8_ignore t"
      by blast
    then show ?thesis
    proof cases
      case none
      with less.prems Cons show ?thesis by simp
    next
      case skip
      with less.prems Cons have "c \<in> set (utf8_ignore t)" and "length t < length bs"
        by simp_all
      then show ?thesis
        using less.hyps by blast
    next
      case emit
      with less.prems Cons have "c = x \<or> c \<in> set (utf8_ignore t)" and "length t < length bs"
        by simp_all
      then show ?thesis
        using less.hyps emit(1) by blast
    qed
  qed
qed


lemma utf8_ignore_ascii: "\<forall>b \<in> set bs. b < 128 \<Longrightarrow> utf8_ignore bs = bs"
  by (induction bs) (simp_all add: utf8_ignore.simps)

lemma py_strip_split:
  "\<exists>pre post. s = pre @ py_strip s cs @ post \<and> set pre \<subseteq> set cs \<and> set post \<subseteq> set cs"
proof -
  let ?P = "\<lambda>c. c \<in> set cs"
  let ?ys = "dropWhile ?P s"
  have "rev (takeWhile ?P (rev ?ys) @ dropWhile ?P (rev ?ys))
        = rev (dropWhile ?P (rev ?ys)) @ rev (takeWhile ?P (rev ?ys))"
    by (rule rev_append)
  then have "rev (rev ?ys) = rev (dropWhile ?P (rev ?ys)) @ rev (takeWhile ?P (rev ?ys))"
    by (simp only: takeWhile_dropWhile_id)
  then have ys: "?ys = py_strip s cs @ rev (takeWhile ?P (rev ?ys))"
    by (simp only: rev_rev_ident py_strip_def)
  have "s = takeWhile ?P s @ ?ys"
    by simp
  with ys have "s = takeWhile ?P s @ py_strip s cs @ rev (takeWhile ?P (rev ?ys))"
    by simp
  moreover have "set (takeWhile ?P s) \<subseteq> set cs"
    by (auto dest: set_takeWhileD)
  moreover have "set (rev (takeWhile ?P (rev ?ys))) \<subseteq> set cs"
    by (auto dest: set_takeWhileD)
  ultimately show ?thesis
    by blast
qed

lemma py_strip_ends:
  assumes "py_strip s cs \<noteq> []"
  shows "hd (py_strip s cs) \<notin> set cs \<and> last (py_strip s cs) \<notin> set cs"
proof -
  let ?P = "\<lambda>c. c \<in> set cs"
  let ?ys = "dropWhile ?P s"
  let ?D = "dropWhile ?P (rev ?ys)"
  have r: "py_strip s cs = rev ?D"
    by (simp add: py_strip_def)
  with assms have D: "?D \<noteq> []"
    by simp
  then have "\<not> ?P (hd ?D)"
    by (rule hd_dropWhile)
  moreover have "last (rev ?D) = hd ?D"
    using D by (simp add: last_rev)
  ultimately have l: "last (py_strip s cs) \<notin> set cs"
    by (simp add: r)
  have "rev (takeWhile ?P (rev ?ys) @ ?D) = rev ?D @ rev (takeWhile ?P (rev ?ys))"
    by (rule rev_append)
  then have "rev (rev ?ys) = rev ?D @ rev (takeWhile ?P (rev ?ys))"
    by (simp only: takeWhile_dropWhile_id)
  then have ys: "?ys = py_strip s cs @ rev (takeWhile ?P (rev ?ys))"
    by (simp only: rev_rev_ident py_strip_def)
  with assms have "?ys \<noteq> []"
    by (metis append_is_Nil_conv)
  then have "\<not> ?P (hd ?ys)"
    by (rule hd_dropWhile)
  moreover have "hd ?ys = hd (py_strip s cs)"
    using assms by (subst ys) simp
  ultimately have "hd (py_strip s cs) \<notin> set cs"
    by simp
  with l show ?thesis
    by simp
qed

lemma set_py_strip: "set (py_strip s cs) \<subseteq> set s"
proof -
  obtain pre post where "s = pre @ py_strip s cs @ post"
    using py_strip_split by blast
  then have "set s = set pre \<union> set (py_strip s cs) \<union> set post"
    by (metis set_append sup_assoc)
  then show ?thesis
    by blast
qed

lemma attr_text_missing: "attrs k = None \<Longrightarrow> attr_text attrs k = []"
  by (simp add: attr_text_def dict_get_def decode_ignore_def py_strip_def utf8_ignore.simps)

lemma attr_text_valid: "c \<in> set (attr_text attrs k) \<Longrightarrow> valid_scalar c"
  using set_py_strip utf8_ignore_valid
  unfolding attr_text_def decode_ignore_def by blast

lemma pending_print_summary: "pending (print_summary s a t m p) = pending s"
  by (simp add: print_summary_def py_print_def Let_def)

lemma on_data_source_ok:
  assumes "4 \<le> length data"
  shows "\<exists>s'. on_data_source s data = Inr s'
           \<and> pending s' = (pending s)(from_bytes_le (py_slice data 0 4) := None)"
proof -
  obtain attrs where "parse_tlv_attributes (drop 4 data) = Inr attrs"
    unfolding parse_tlv_attributes_def using parse_tlv_loop_total by blast
  then show ?thesis
    using assms
    by (simp add: on_data_source_def bind_res_def Let_def dict_pop_def pending_print_summary)
qed

lemma attr_text_example:
  "attr_text [NA_TITLE \<mapsto> [72, 255, 105, 10]] NA_TITLE = lit ''Hi''"
  by (simp add: attr_text_def dict_get_def decode_ignore_def utf8_ignore.simps py_strip_def
        STRIP_CHARS_def lit_def)

lemma split3:
  fixes x :: nat
  shows "x = (x div 4096) * 4096 + (x div 64 mod 64) * 64 + x mod 64"
proof -
  define q r q2 r2 where "q = x div 64" and "r = x mod 64"
    and "q2 = x div 64 div 64" and "r2 = x div 64 mod 64"
  have 1: "x = 64 * q + r"
    by (simp add: q_def r_def)
  have 2: "q = 64 * q2 + r2"
    by (simp add: q_def q2_def r2_def)
  have 3: "x div 4096 = q2"
    by (simp add: q2_def div_mult2_eq [symmetric])
  from 1 2 have h: "x = q2 * 4096 + r2 * 64 + r"
    by linarith
  have e: "q2 = x div 4096"
    using 3 [symmetric] .
  show ?thesis
    using h unfolding e r2_def r_def .
qed

lemma split4:
  fixes x :: nat
  shows "x = (x div 262144) * 262144 + (x div 4096 mod 64) * 4096 + (x div 64 mod 64) * 64
             + x mod 64"
proof -
  define p q3 r3 where "p = x div 4096" and "q3 = x div 4096 div 64" and "r3 = x div 4096 mod 64"
  define m where "m = (x div 64 mod 64) * 64 + x mod 64"
  have 1: "x = p * 4096 + m"
    unfolding p_def m_def using split3 [of x] by (simp only: add.assoc)
  have 2: "p = 64 * q3 + r3"
    by (simp add: p_def q3_def r3_def)
  have 3: "x div 262144 = q3"
    by (simp add: q3_def div_mult2_eq [symmetric])
  from 1 2 have h: "x = q3 * 262144 + r3 * 4096 + m"
    by linarith
  have e: "q3 = x div 262144"
    using 3 [symmetric] .
  show ?thesis
    using h unfolding e r3_def m_def by (simp only: add.assoc)
qed


lemma dec1: "a < 128 \<Longrightarrow> utf8_ignore (a # rest) = a # utf8_ignore rest"
  by (subst utf8_ignore.simps(2)) simp

lemma dec2:
  assumes "2 \<le> a" "a < 32" "b < 64"
  shows "utf8_ignore ((192 + a) # (128 + b) # rest) = (a * 64 + b) # utf8_ignore rest"
  using assms by (subst utf8_ignore.simps(2)) (simp add: is_cont_def)

lemma dec3:
  assumes "a < 16" "b < 64" "c < 64" "a = 0 \<longrightarrow> 32 \<le> b" "a = 13 \<longrightarrow> b < 32"
  shows "utf8_ignore ((224 + a) # (128 + b) # (128 + c) # rest)
         = (a * 4096 + b * 64 + c) # utf8_ignore rest"
  using assms by (subst utf8_ignore.simps(2)) (auto simp: is_cont_def)

lemma dec4:
  assumes "a < 5" "b < 64" "c < 64" "d < 64" "a = 0 \<longrightarrow> 16 \<le> b" "a = 4 \<longrightarrow> b < 16"
  shows "utf8_ignore ((240 + a) # (128 + b) # (128 + c) # (128 + d) # rest)
         = (a * 262144 + b * 4096 + c * 64 + d) # utf8_ignore rest"
  using assms by (subst utf8_ignore.simps(2)) (auto simp: is_cont_def)


lemma digits3:
  fixes x :: nat
  assumes "2048 \<le> x" "x < 65536" "\<not> (55296 \<le> x \<and> x < 57344)"
  defines "a \<equiv> x div 4096" and "b \<equiv> x div 64 mod 64" and "c \<equiv> x mod 64"
  shows "a < 16" "b < 64" "c < 64" "a = 0 \<longrightarrow> 32 \<le> b" "a = 13 \<longrightarrow> b < 32"
    "x = a * 4096 + b * 64 + c"
proof -
  show x: "x = a * 4096 + b * 64 + c"
    unfolding a_def b_def c_def by (rule split3)
  show b: "b < 64" and c: "c < 64"
    by (simp_all add: b_def c_def)
  show "a < 16"
    unfolding a_def using assms(2) by (intro less_mult_imp_div_less) simp
  show "a = 0 \<longrightarrow> 32 \<le> b"
    using x c assms(1) by auto
  show "a = 13 \<longrightarrow> b < 32"
    using x b c assms(3) by auto
qed

lemma digits4:
  fixes x :: nat
  assumes "65536 \<le> x" "x < 1114112"
  defines "a \<equiv> x div 262144" and "b \<equiv> x div 4096 mod 64" and "c \<equiv> x div 64 mod 64"
    and "d \<equiv> x mod 64"
  shows "a < 5" "b < 64" "c < 64" "d < 64" "a = 0 \<longrightarrow> 16 \<le> b" "a = 4 \<longrightarrow> b < 16"
    "x = a * 262144 + b * 4096 + c * 64 + d"
proof -
  show x: "x = a * 262144 + b * 4096 + c * 64 + d"
    unfolding a_def b_def c_def d_def by (rule split4)
  show b: "b < 64" and c: "c < 64" and d: "d < 64"
    by (simp_all add: b_def c_def d_def)
  show "a < 5"
    unfolding a_def using assms(2) by (intro less_mult_imp_div_less) simp
  show "a = 0 \<longrightarrow> 16 \<le> b"
    using x c d assms(1) by auto
  show "a = 4 \<longrightarrow> b < 16"
    using x assms(2) by auto
qed

lemma utf8_ignore_encoded:
  assumes "valid_scalar x"
  shows "utf8_ignore (spec_utf8 x @ rest) = x # utf8_ignore rest"
proof -
  consider (one) "x < 128" | (two) "128 \<le> x" "x < 2048" | (three) "2048 \<le> x" "x < 65536"
    | (four) "65536 \<le> x"
    by linarith
  then show ?thesis
  proof cases
    case one
    then show ?thesis
      by (simp add: spec_utf8_def dec1)
  next
    case two
    define a b where "a = x div 64" and "b = x mod 64"
    have x: "x = a * 64 + b"
      by (simp add: a_def b_def)
    have "b < 64"
      by (simp add: b_def)
    moreover have "a < 32"
      unfolding a_def using two(2) by (intro less_mult_imp_div_less) simp
    moreover have "2 \<le> a"
      using x two(1) \<open>b < 64\<close> by auto
    ultimately have "utf8_ignore ((192 + a) # (128 + b) # rest) = (a * 64 + b) # utf8_ignore rest"
      by (intro dec2)
    moreover have "spec_utf8 x = [192 + a, 128 + b]"
      using two by (simp add: spec_utf8_def a_def b_def)
    ultimately show ?thesis
      using x by simp
  next
    case three
    define a b c where "a = x div 4096" and "b = x div 64 mod 64" and "c = x mod 64"
    have ns: "\<not> (55296 \<le> x \<and> x < 57344)"
      using assms by (simp add: valid_scalar_def)
    note d = digits3 [OF three ns, folded a_def b_def c_def]
    have "utf8_ignore ((224 + a) # (128 + b) # (128 + c) # rest)
          = (a * 4096 + b * 64 + c) # utf8_ignore rest"
      using d(1-5) by (intro dec3)
    moreover have "spec_utf8 x = [224 + a, 128 + b, 128 + c]"
      using three by (simp add: spec_utf8_def a_def b_def c_def)
    ultimately show ?thesis
      using d(6) by simp
  next
    case four
    define a b c d where "a = x div 262144" and "b = x div 4096 mod 64"
      and "c = x div 64 mod 64" and "d = x mod 64"
    have lt: "x < 1114112"
      using assms by (simp add: valid_scalar_def)
    note g = digits4 [OF four lt, folded a_def b_def c_def d_def]
    have "utf8_ignore ((240 + a) # (128 + b) # (128 + c) # (128 + d) # rest)
          = (a * 262144 + b * 4096 + c * 64 + d) # utf8_ignore rest"
      using g(1-6) by (intro dec4)
    moreover have "spec_utf8 x = [240 + a, 128 + b, 128 + c, 128 + d]"
      using four by (simp add: spec_utf8_def a_def b_def c_def d_def)
    ultimately show ?thesis
      using g(7) by simp
  qed
qed


lemma div_mod_digit:
  fixes q n r :: nat
  assumes "r < n"
  shows "(q * n + r) div n = q" "(q * n + r) mod n = r"
  using assms by simp_all

lemma enc2:
  assumes "2 \<le> a" "a < 32" "b < 64"
  shows "spec_utf8 (a * 64 + b) = [192 + a, 128 + b]" "valid_scalar (a * 64 + b)"
proof -
  have lo: "128 \<le> a * 64 + b" and hi: "a * 64 + b < 2048"
    using assms by linarith+
  have "(a * 64 + b) div 64 = a" "(a * 64 + b) mod 64 = b"
    using assms(3) by (rule div_mod_digit)+
  with lo hi show "spec_utf8 (a * 64 + b) = [192 + a, 128 + b]"
    by (simp add: spec_utf8_def)
  from hi show "valid_scalar (a * 64 + b)"
    by (simp add: valid_scalar_def)
qed

lemma enc3:
  assumes "a < 16" "b < 64" "c < 64" "a = 0 \<longrightarrow> 32 \<le> b" "a = 13 \<longrightarrow> b < 32"
  shows "spec_utf8 (a * 4096 + b * 64 + c) = [224 + a, 128 + b, 128 + c]"
    "valid_scalar (a * 4096 + b * 64 + c)"
proof -
  define x where "x = a * 4096 + b * 64 + c"
  have lo: "2048 \<le> x" and hi: "x < 65536"
    unfolding x_def using assms by linarith+
  have r: "b * 64 + c < 4096"
    using assms(2,3) by linarith
  have e1: "x = (a * 64 + b) * 64 + c"
    by (simp add: x_def algebra_simps)
  have "((a * 64 + b) * 64 + c) div 64 = a * 64 + b" "((a * 64 + b) * 64 + c) mod 64 = c"
    using assms(3) by (rule div_mod_digit)+
  then have q: "x div 64 = a * 64 + b" and m: "x mod 64 = c"
    unfolding e1 .
  have e2: "x = a * 4096 + (b * 64 + c)"
    by (simp add: x_def)
  have "(a * 4096 + (b * 64 + c)) div 4096 = a"
    using r by (rule div_mod_digit)
  then have p: "x div 4096 = a"
    unfolding e2 .
  have "(a * 64 + b) mod 64 = b"
    using assms(2) by (rule div_mod_digit)
  with lo hi p q m have "spec_utf8 x = [224 + a, 128 + b, 128 + c]"
    by (simp add: spec_utf8_def)
  then show "spec_utf8 (a * 4096 + b * 64 + c) = [224 + a, 128 + b, 128 + c]"
    by (simp only: x_def)
  have "\<not> (55296 \<le> x \<and> x < 57344)"
  proof
    assume s: "55296 \<le> x \<and> x < 57344"
    then have "a = 13"
      unfolding x_def using r by linarith
    with assms(5) s show False
      unfolding x_def using assms(3) by linarith
  qed
  with hi have "valid_scalar x"
    by (simp add: valid_scalar_def)
  then show "valid_scalar (a * 4096 + b * 64 + c)"
    by (simp only: x_def)
qed

lemma enc4:
  assumes "a < 5" "b < 64" "c < 64" "d < 64" "a = 0 \<longrightarrow> 16 \<le> b" "a = 4 \<longrightarrow> b < 16"
  shows "spec_utf8 (a * 262144 + b * 4096 + c * 64 + d) = [240 + a, 128 + b, 128 + c, 128 + d]"
    "valid_scalar (a * 262144 + b * 4096 + c * 64 + d)"
proof -
  define x where "x = a * 262144 + b * 4096 + c * 64 + d"
  have r1: "c * 64 + d < 4096"
    using assms(3,4) by linarith
  have r2: "b * 4096 + (c * 64 + d) < 262144"
    using assms(2) r1 by linarith
  have lo: "65536 \<le> x"
    unfolding x_def using assms(5) by (cases "a = 0") linarith+
  have hi: "x < 1114112"
  proof (cases "a = 4")
    case True
    with assms(6) have "b < 16"
      by simp
    with True r1 show ?thesis
      unfolding x_def by linarith
  next
    case False
    with assms(1) have "a \<le> 3"
      by simp
    with r2 show ?thesis
      unfolding x_def by linarith
  qed
  have e1: "x = ((a * 64 + b) * 64 + c) * 64 + d"
    by (simp add: x_def algebra_simps)
  have "(((a * 64 + b) * 64 + c) * 64 + d) div 64 = (a * 64 + b) * 64 + c"
    "(((a * 64 + b) * 64 + c) * 64 + d) mod 64 = d"
    using assms(4) by (rule div_mod_digit)+
  then have q: "x div 64 = (a * 64 + b) * 64 + c" and m: "x mod 64 = d"
    unfolding e1 .
  have q64: "((a * 64 + b) * 64 + c) mod 64 = c"
    using assms(3) by (rule div_mod_digit)
  have e2: "x = (a * 64 + b) * 4096 + (c * 64 + d)"
    by (simp add: x_def algebra_simps)
  have "((a * 64 + b) * 4096 + (c * 64 + d)) div 4096 = a * 64 + b"
    using r1 by (rule div_mod_digit)
  then have p: "x div 4096 = a * 64 + b"
    unfolding e2 .
  have p64: "(a * 64 + b) mod 64 = b"
    using assms(2) by (rule div_mod_digit)
  have e3: "x = a * 262144 + (b * 4096 + (c * 64 + d))"
    by (simp add: x_def)
  have "(a * 262144 + (b * 4096 + (c * 64 + d))) div 262144 = a"
    using r2 by (rule div_mod_digit)
  then have t: "x div 262144 = a"
    unfolding e3 .
  from lo hi t p p64 q q64 m have "spec_utf8 x = [240 + a, 128 + b, 128 + c, 128 + d]"
    by (simp add: spec_utf8_def)
  then show "spec_utf8 (a * 262144 + b * 4096 + c * 64 + d)
             = [240 + a, 128 + b, 128 + c, 128 + d]"
    by (simp only: x_def)
  from lo hi have "valid_scalar x"
    by (simp add: valid_scalar_def)
  then show "valid_scalar (a * 262144 + b * 4096 + c * 64 + d)"
    by (simp only: x_def)
qed


lemma cont_skip: "is_cont c \<Longrightarrow> utf8_ignore (c # s) = utf8_ignore s"
  by (subst utf8_ignore.simps(2)) (simp add: is_cont_def)

lemma is_cont_offset: "is_cont c \<Longrightarrow> c = 128 + (c - 128) \<and> c - 128 < 64"
  by (auto simp: is_cont_def)

lemma utf8_ignore_drop:
  assumes none: "\<forall>x t. valid_scalar x \<longrightarrow> ch # s \<noteq> spec_utf8 x @ t"
  shows "utf8_ignore (ch # s) = utf8_ignore s"
proof -
  consider (ascii) "ch < 128" | (bad) "128 \<le> ch" "ch < 194" | (two) "194 \<le> ch" "ch < 224"
    | (three) "224 \<le> ch" "ch < 240" | (four) "240 \<le> ch" "ch < 245" | (high) "245 \<le> ch"
    by linarith
  then show ?thesis
  proof cases
    case ascii
    then have "valid_scalar ch" "ch # s = spec_utf8 ch @ s"
      by (simp_all add: valid_scalar_def spec_utf8_def)
    with none show ?thesis by blast
  next
    case bad
    then show ?thesis
      by (subst utf8_ignore.simps(2)) simp
  next
    case high
    then show ?thesis
      by (subst utf8_ignore.simps(2)) simp
  next
    case two
    show ?thesis
    proof (cases s)
      case Nil
      with two show ?thesis
        by (subst utf8_ignore.simps(2)) (simp add: utf8_ignore.simps(1))
    next
      case (Cons c2 s2)
      show ?thesis
      proof (cases "is_cont c2")
        case False
        with two Cons show ?thesis
          by (subst utf8_ignore.simps(2)) simp
      next
        case True
        define a b where "a = ch - 192" and "b = c2 - 128"
        have ab: "2 \<le> a" "a < 32" "b < 64" and ch: "ch = 192 + a" and c2: "c2 = 128 + b"
          using two is_cont_offset [OF True] by (auto simp: a_def b_def)
        have "ch # s = spec_utf8 (a * 64 + b) @ s2"
          by (simp add: enc2 [OF ab] Cons ch c2)
        with none enc2(2) [OF ab] show ?thesis by blast
      qed
    qed
  next
    case three
    show ?thesis
    proof (cases s)
      case Nil
      with three show ?thesis
        by (subst utf8_ignore.simps(2)) (simp add: utf8_ignore.simps(1))
    next
      case s: (Cons c2 s2)
      show ?thesis
      proof (cases "\<not> is_cont c2 \<or> (if c2 < 160 then ch = 224 else ch = 237)")
        case True
        with three s show ?thesis
          by (subst utf8_ignore.simps(2)) (auto split: if_splits)
      next
        case ok2: False
        then have k2: "is_cont c2"
          by simp
        show ?thesis
        proof (cases s2)
          case Nil
          with three s ok2 have "utf8_ignore (ch # s) = []"
            by (subst utf8_ignore.simps(2)) simp
          moreover have "utf8_ignore s = []"
            using s Nil k2 by (simp add: cont_skip utf8_ignore.simps(1))
          ultimately show ?thesis by simp
        next
          case s2: (Cons c3 s3)
          show ?thesis
          proof (cases "is_cont c3")
            case False
            with three s ok2 s2 have "utf8_ignore (ch # s) = utf8_ignore s2"
              by (subst utf8_ignore.simps(2)) simp
            moreover have "utf8_ignore s = utf8_ignore s2"
              using s k2 by (simp add: cont_skip)
            ultimately show ?thesis by simp
          next
            case k3: True
            define a b c where "a = ch - 224" and "b = c2 - 128" and "c = c3 - 128"
            have abc: "a < 16" "b < 64" "c < 64" "a = 0 \<longrightarrow> 32 \<le> b" "a = 13 \<longrightarrow> b < 32"
              and ch: "ch = 224 + a" and c2: "c2 = 128 + b" and c3: "c3 = 128 + c"
              using three ok2 is_cont_offset [OF k2] is_cont_offset [OF k3]
              by (auto simp: a_def b_def c_def split: if_splits)
            have "ch # s = spec_utf8 (a * 4096 + b * 64 + c) @ s3"
              by (simp add: enc3 [OF abc] s s2 ch c2 c3)
            with none enc3(2) [OF abc] show ?thesis by blast
          qed
        qed
      qed
    qed
  next
    case four
    show ?thesis
    proof (cases s)
      case Nil
      with four show ?thesis
        by (subst utf8_ignore.simps(2)) (simp add: utf8_ignore.simps(1))
    next
      case s: (Cons c2 s2)
      show ?thesis
      proof (cases "\<not> is_cont c2 \<or> (if c2 < 144 then ch = 240 else ch = 244)")
        case True
        with four s show ?thesis
          by (subst utf8_ignore.simps(2)) (auto split: if_splits)
      next
        case ok2: False
        then have k2: "is_cont c2"
          by simp
        show ?thesis
        proof (cases s2)
          case Nil
          with four s ok2 have "utf8_ignore (ch # s) = []"
            by (subst utf8_ignore.simps(2)) simp
          moreover have "utf8_ignore s = []"
            using s Nil k2 by (simp add: cont_skip utf8_ignore.simps(1))
          ultimately show ?thesis by simp
        next
          case s2: (Cons c3 s3)
          show ?thesis
          proof (cases "is_cont c3")
            case False
            with four s ok2 s2 have "utf8_ignore (ch # s) = utf8_ignore s2"
              by (subst utf8_ignore.simps(2)) simp
            moreover have "utf8_ignore s = utf8_ignore s2"
              using s k2 by (simp add: cont_skip)
            ultimately show ?thesis by simp
          next
            case k3: True
            show ?thesis
            proof (cases s3)
              case Nil
              with four s ok2 s2 k3 have "utf8_ignore (ch # s) = []"
                by (subst utf8_ignore.simps(2)) simp
              moreover have "utf8_ignore s = []"
                using s s2 Nil k2 k3 by (simp add: cont_skip utf8_ignore.simps(1))
              ultimately show ?thesis by simp
            next
              case s3: (Cons c4 s4)
              show ?thesis
              proof (cases "is_cont c4")
                case False
                with four s ok2 s2 k3 s3 have "utf8_ignore (ch # s) = utf8_ignore s3"
                  by (subst utf8_ignore.simps(2)) simp
                moreover have "utf8_ignore s = utf8_ignore s3"
                  using s s2 k2 k3 by (simp add: cont_skip)
                ultimately show ?thesis by simp
              next
                case k4: True
                define a b c d where "a = ch - 240" and "b = c2 - 128" and "c = c3 - 128"
                  and "d = c4 - 128"
                have abcd: "a < 5" "b < 64" "c < 64" "d < 64" "a = 0 \<longrightarrow> 16 \<le> b"
                    "a = 4 \<longrightarrow> b < 16"
                  and ch: "ch = 240 + a" and c2: "c2 = 128 + b" and c3: "c3 = 128 + c"
                  and c4: "c4 = 128 + d"
                  using four ok2 is_cont_offset [OF k2] is_cont_offset [OF k3]
                    is_cont_offset [OF k4]
                  by (auto simp: a_def b_def c_def d_def split: if_splits)
                have "ch # s = spec_utf8 (a * 262144 + b * 4096 + c * 64 + d) @ s4"
                  by (simp add: enc4 [OF abcd] s s2 s3 ch c2 c3 c4)
                with none enc4(2) [OF abcd] show ?thesis by blast
              qed
            qed
          qed
        qed
      qed
    qed
  qed
qed


lemma spec_utf8_shape:
  assumes "valid_scalar x"
  shows "spec_utf8 x \<noteq> []" "\<forall>n \<in> set (spec_utf8 x). n < 256"
    "hd (spec_utf8 x) < 128 \<or> 194 \<le> hd (spec_utf8 x)"
proof -
  have lt: "x < 1114112"
    using assms by (simp add: valid_scalar_def)
  have d2: "x < 2048 \<Longrightarrow> x div 64 < 32"
    by (intro less_mult_imp_div_less) simp
  have d3: "x < 65536 \<Longrightarrow> x div 4096 < 16"
    by (intro less_mult_imp_div_less) simp
  have d4: "x div 262144 < 5"
    using lt by (intro less_mult_imp_div_less) simp
  have m: "x mod 64 < 64" "x div 64 mod 64 < 64" "x div 4096 mod 64 < 64"
    by simp_all
  have lo: "128 \<le> x \<Longrightarrow> 2 \<le> x div 64"
    by (simp add: less_eq_div_iff_mult_less_eq)
  show "spec_utf8 x \<noteq> []"
    by (simp add: spec_utf8_def)
  show "\<forall>n \<in> set (spec_utf8 x). n < 256"
    using d2 d3 d4 m by (auto simp: spec_utf8_def)
  show "hd (spec_utf8 x) < 128 \<or> 194 \<le> hd (spec_utf8 x)"
    using lo by (auto simp: spec_utf8_def)
qed

lemma unat_of_nat_byte: "n < 256 \<Longrightarrow> unat (of_nat n :: byte) = n"
  by (simp add: unat_of_nat)

lemma map_unat_spec_utf8_bytes:
  assumes "valid_scalar x"
  shows "map unat (spec_utf8_bytes x) = spec_utf8 x"
proof -
  have "\<forall>n \<in> set (spec_utf8 x). unat (of_nat n :: byte) = n"
    using spec_utf8_shape(2) [OF assms] unat_of_nat_byte by blast
  then show ?thesis
    unfolding spec_utf8_bytes_def by (simp add: map_idI)
qed

lemma decode_ignore_encoded:
  assumes "valid_scalar x"
  shows "decode_ignore (spec_utf8_bytes x @ rest) = x # decode_ignore rest"
  unfolding decode_ignore_def
  by (simp add: map_unat_spec_utf8_bytes [OF assms] utf8_ignore_encoded [OF assms])

lemma decode_ignore_drop:
  assumes none: "\<forall>x t. valid_scalar x \<longrightarrow> b # rest \<noteq> spec_utf8_bytes x @ t"
  shows "decode_ignore (b # rest) = decode_ignore rest"
proof -
  have "\<forall>x t. valid_scalar x \<longrightarrow> unat b # map unat rest \<noteq> spec_utf8 x @ t"
  proof (intro allI impI notI)
    fix x t
    assume v: "valid_scalar x" and e: "unat b # map unat rest = spec_utf8 x @ t"
    have "map of_nat (unat b # map unat rest) = (b # rest :: bytes)"
      by (simp add: comp_def)
    with e have "b # rest = spec_utf8_bytes x @ map of_nat t"
      by (simp add: spec_utf8_bytes_def)
    with none v show False
      by blast
  qed
  then have "utf8_ignore (unat b # map unat rest) = utf8_ignore (map unat rest)"
    by (rule utf8_ignore_drop)
  then show ?thesis
    by (simp add: decode_ignore_def)
qed

lemma stray_continuation:
  assumes "valid_scalar x"
  shows "(128 :: byte) # rest \<noteq> spec_utf8_bytes x @ t"
proof
  assume e: "128 # rest = spec_utf8_bytes x @ t"
  have ne: "spec_utf8 x \<noteq> []"
    by (rule spec_utf8_shape(1) [OF assms])
  then have h: "hd (map unat (spec_utf8_bytes x @ t)) = hd (spec_utf8 x)"
    by (simp add: map_unat_spec_utf8_bytes [OF assms])
  from e have "hd (map unat ((128 :: byte) # rest)) = hd (map unat (spec_utf8_bytes x @ t))"
    by (rule arg_cong)
  with h have "hd (spec_utf8 x) = 128"
    by simp
  with spec_utf8_shape(3) [OF assms] show False
    by simp
qed

lemma decode_examples:
  "decode_ignore [195, 169] = [233]" "decode_ignore [72, 128, 105] = [72, 105]"
  by (simp_all add: decode_ignore_def utf8_ignore.simps is_cont_def)

text \<open>
  C7, as amended. A missing attribute gives the empty string. The bytes of an attribute
  are decoded permissively: the encoding of a scalar value, of one to four bytes, gives
  that scalar value; a byte at which no such encoding starts is dropped, nothing is put
  in its place and decoding goes on with the next byte; so the text holds only scalar
  values and bytes below 128 stand for themselves. The result is the decoded string
  without a leading and a trailing run of the characters NUL, line feed, carriage
  return and space, and it neither starts nor ends with one of these four. A payload
  of at least 4 bytes never makes the handler raise.
\<close>

theorem attr_text_permissive:
  "(attrs k = None \<longrightarrow> attr_text attrs k = [])
   \<and> (\<forall>c \<in> set (attr_text attrs k). valid_scalar c)
   \<and> (\<forall>v. attrs k = Some v \<and> (\<forall>b \<in> set v. unat b < 128)
          \<longrightarrow> attr_text attrs k = py_strip (map unat v) [0, 10, 13, 32])
   \<and> (\<exists>pre post. decode_ignore (dict_get attrs k []) = pre @ attr_text attrs k @ post
          \<and> set pre \<subseteq> {0, 10, 13, 32} \<and> set post \<subseteq> {0, 10, 13, 32})
   \<and> (attr_text attrs k \<noteq> []
          \<longrightarrow> hd (attr_text attrs k) \<notin> {0, 10, 13, 32}
              \<and> last (attr_text attrs k) \<notin> {0, 10, 13, 32})
   \<and> (4 \<le> length data \<longrightarrow> (\<exists>s'. on_data_source s data = Inr s'))
   \<and> attr_text [NA_TITLE \<mapsto> [72, 255, 105, 10]] NA_TITLE = lit ''Hi''
   \<and> decode_ignore [] = []
   \<and> (\<forall>x rest. valid_scalar x
          \<longrightarrow> decode_ignore (spec_utf8_bytes x @ rest) = x # decode_ignore rest)
   \<and> (\<forall>b rest. (\<forall>x t. valid_scalar x \<longrightarrow> b # rest \<noteq> spec_utf8_bytes x @ t)
          \<longrightarrow> decode_ignore (b # rest) = decode_ignore rest)
   \<and> decode_ignore [195, 169] = [233]
   \<and> decode_ignore [72, 128, 105] = [72, 105]"
proof -
  have cs: "set STRIP_CHARS = {0, 10, 13, 32}"
    by (simp add: STRIP_CHARS_def)
  have a: "\<forall>v. attrs k = Some v \<and> (\<forall>b \<in> set v. unat b < 128)
          \<longrightarrow> attr_text attrs k = py_strip (map unat v) [0, 10, 13, 32]"
  proof (intro allI impI)
    fix v
    assume h: "attrs k = Some v \<and> (\<forall>b \<in> set v. unat b < 128)"
    then have "utf8_ignore (map unat v) = map unat v"
      by (intro utf8_ignore_ascii) simp
    with h show "attr_text attrs k = py_strip (map unat v) [0, 10, 13, 32]"
      by (simp add: attr_text_def dict_get_def decode_ignore_def STRIP_CHARS_def)
  qed
  have b: "\<exists>pre post. decode_ignore (dict_get attrs k []) = pre @ attr_text attrs k @ post
          \<and> set pre \<subseteq> {0, 10, 13, 32} \<and> set post \<subseteq> {0, 10, 13, 32}"
    using py_strip_split [of "decode_ignore (dict_get attrs k [])" STRIP_CHARS]
    unfolding attr_text_def cs .
  have c: "attr_text attrs k \<noteq> []
          \<longrightarrow> hd (attr_text attrs k) \<notin> {0, 10, 13, 32}
              \<and> last (attr_text attrs k) \<notin> {0, 10, 13, 32}"
    using py_strip_ends [of "decode_ignore (dict_get attrs k [])" STRIP_CHARS]
    unfolding attr_text_def cs by blast
  have d: "4 \<le> length data \<longrightarrow> (\<exists>s'. on_data_source s data = Inr s')"
    using on_data_source_ok [of data s] by blast
  have e: "decode_ignore [] = []"
    by (simp add: decode_ignore_def utf8_ignore.simps(1))
  have f: "\<forall>x rest. valid_scalar x
          \<longrightarrow> decode_ignore (spec_utf8_bytes x @ rest) = x # decode_ignore rest"
    using decode_ignore_encoded by blast
  have g: "\<forall>b rest. (\<forall>x t. valid_scalar x \<longrightarrow> b # rest \<noteq> spec_utf8_bytes x @ t)
          \<longrightarrow> decode_ignore (b # rest) = decode_ignore rest"
    using decode_ignore_drop by blast
  have first: "(attrs k = None \<longrightarrow> attr_text attrs k = [])
      \<and> (\<forall>c \<in> set (attr_text attrs k). valid_scalar c)"
    using attr_text_missing [of attrs k] attr_text_valid [of _ attrs k] by blast
  show ?thesis
    by (intro conjI a b c d e f g attr_text_example decode_examples
          conjunct1 [OF first] conjunct2 [OF first])
qed

theorem attr_text_permissive_witness:
  "attr_text (Map.empty :: nat \<rightharpoonup> bytes) NA_TITLE = []
   \<and> attr_text [NA_TITLE \<mapsto> [32, 72, 105, 0]] NA_TITLE = [72, 105]
   \<and> 4 \<le> length [7, 0, 0, 0 :: byte]
   \<and> (\<exists>s'. on_data_source \<lparr>client = True, pending = Map.empty, stdout = [],
                 tasks = [], written = []\<rparr> [7, 0, 0, 0] = Inr s')
   \<and> valid_scalar 8364
   \<and> decode_ignore (spec_utf8_bytes 8364 @ [33]) = 8364 # decode_ignore [33]
   \<and> decode_ignore [128, 105] = decode_ignore [105]"
proof -
  let ?s = "\<lparr>client = True, pending = Map.empty, stdout = [], tasks = [], written = []\<rparr>"
  let ?a = "[NA_TITLE \<mapsto> [32, 72, 105, 0 :: byte]]"
  note thm1 = attr_text_permissive [of "Map.empty" NA_TITLE "[7, 0, 0, 0]" ?s]
  note thm2 = attr_text_permissive [of ?a NA_TITLE "[7, 0, 0, 0]" ?s]
  have h1: "(Map.empty :: nat \<rightharpoonup> bytes) NA_TITLE = None"
    by simp
  have h2: "?a NA_TITLE = Some [32, 72, 105, 0] \<and> (\<forall>b \<in> set [32, 72, 105, 0 :: byte]. unat b < 128)"
    by simp
  have h3: "4 \<le> length [7, 0, 0, 0 :: byte]"
    by simp
  have h4: "valid_scalar 8364"
    by (simp add: valid_scalar_def)
  have h5: "\<forall>x t. valid_scalar x \<longrightarrow> (128 :: byte) # [105] \<noteq> spec_utf8_bytes x @ t"
    using stray_continuation by blast
  have e: "py_strip (map unat [32, 72, 105, 0 :: byte]) [0, 10, 13, 32] = [72, 105]"
    by (simp add: py_strip_def)
  from thm1 h1 have a: "attr_text (Map.empty :: nat \<rightharpoonup> bytes) NA_TITLE = []"
    by blast
  from thm2 h2
  have "attr_text ?a NA_TITLE = py_strip (map unat [32, 72, 105, 0 :: byte]) [0, 10, 13, 32]"
    by blast
  with e have b: "attr_text ?a NA_TITLE = [72, 105]"
    by simp
  from thm2 h3 have c: "\<exists>s'. on_data_source ?s [7, 0, 0, 0] = Inr s'"
    by blast
  from thm2 h4 have d: "decode_ignore (spec_utf8_bytes 8364 @ [33]) = 8364 # decode_ignore [33]"
    by blast
  from thm2 h5 have f: "decode_ignore [128, 105] = decode_ignore [105]"
    by blast
  from a b h3 c h4 d f show ?thesis
    by blast
qed

text \<open>
  C7, as stated, fails for whitespace control characters other than line feed and
  carriage return: a leading horizontal tab (code point 9) stays in the title.
\<close>

theorem attr_text_tab_counterexample:
  "attr_text [NA_TITLE \<mapsto> [9, 72, 105]] NA_TITLE = [9, 72, 105]"
  by (simp add: attr_text_def dict_get_def decode_ignore_def utf8_ignore.simps py_strip_def
        STRIP_CHARS_def)

end
